theory Spec2Isabelle
  imports Main "HOL-Library.Word"
begin

unbundle bit_operations_syntax

section \<open>The Serial1 driver of teensy3/serial1.c\<close>

text \<open>
  The driver keeps two rings of units (a transmit ring filled by \<open>serial_putchar\<close> and
  drained by the status interrupt handler, a receive ring filled by the handler and
  drained by \<open>serial_getchar\<close>) in file-scope variables.  The model keeps those variables
  in one record, passes it through every function, and returns \<open>None\<close> where a call of
  the C function has no defined final state: it waits for ever, or it indexes one of the
  arrays outside its bounds.

  The file is compiled in several variants.  The model takes the two switches that change
  the control flow as a parameter (\<open>build\<close>) and fixes the others at their defaults:
  \<open>SERIAL1_TX_BUFFER_SIZE\<close> and \<open>SERIAL1_RX_BUFFER_SIZE\<close> are 64, so the four ring indices are
  \<open>uint8_t\<close>; \<open>SERIAL_9BIT_SUPPORT\<close> is not defined, so \<open>BUFTYPE\<close> is \<open>uint8_t\<close> and
  \<open>use9Bits\<close> is the constant 0; \<open>size_t\<close>, \<open>int\<close> and \<open>unsigned int\<close> have 32 bits and
  \<open>char\<close> is unsigned, as on the ARM targets of the file.
\<close>

subsection \<open>Build switches and constants\<close>

record build =
  KINETISL :: bool
  HAS_KINETISK_UART0_FIFO :: bool

type_synonym BUFTYPE = "8 word"

definition SERIAL1_TX_BUFFER_SIZE :: "32 word" where
  "SERIAL1_TX_BUFFER_SIZE = 64"

definition SERIAL1_RX_BUFFER_SIZE :: "32 word" where
  "SERIAL1_RX_BUFFER_SIZE = 64"

definition RTS_HIGH_WATERMARK :: "32 word" where
  "RTS_HIGH_WATERMARK = SERIAL1_RX_BUFFER_SIZE - 24"

definition RTS_LOW_WATERMARK :: "32 word" where
  "RTS_LOW_WATERMARK = SERIAL1_RX_BUFFER_SIZE - 38"

definition IRQ_PRIORITY :: int where
  "IRQ_PRIORITY = 64"

text \<open>
  Modelled from the spec: the header kinetis.h, which declares the register bit masks, is
  missing from the sources.  The spec names the conditions the driver tests (the
  clock-enable bit, transmit-ready, transmit-complete, receive-ready, idle line, and the
  interrupt enables for them); the masks below are the single bits the Kinetis UART gives
  them.  No theorem below depends on which bit a mask is, except through the closed
  instances that evaluate them.
\<close>

definition SIM_SCGC4_UART0 :: "32 word" where "SIM_SCGC4_UART0 = 0x400"

definition UART_C2_TIE :: "8 word" where "UART_C2_TIE = 0x80"
definition UART_C2_TCIE :: "8 word" where "UART_C2_TCIE = 0x40"
definition UART_C2_RIE :: "8 word" where "UART_C2_RIE = 0x20"
definition UART_C2_ILIE :: "8 word" where "UART_C2_ILIE = 0x10"
definition UART_C2_TE :: "8 word" where "UART_C2_TE = 0x08"
definition UART_C2_RE :: "8 word" where "UART_C2_RE = 0x04"

definition UART_S1_TDRE :: "8 word" where "UART_S1_TDRE = 0x80"
definition UART_S1_TC :: "8 word" where "UART_S1_TC = 0x40"
definition UART_S1_RDRF :: "8 word" where "UART_S1_RDRF = 0x20"
definition UART_S1_IDLE :: "8 word" where "UART_S1_IDLE = 0x10"

definition UART_C3_TXDIR :: "8 word" where "UART_C3_TXDIR = 0x20"
definition UART_CFIFO_RXFLUSH :: "8 word" where "UART_CFIFO_RXFLUSH = 0x40"

definition C2_ENABLE :: "build \<Rightarrow> 8 word" where
  "C2_ENABLE b =
     (if HAS_KINETISK_UART0_FIFO b
      then UART_C2_TE OR UART_C2_RE OR UART_C2_RIE OR UART_C2_ILIE
      else UART_C2_TE OR UART_C2_RE OR UART_C2_RIE)"

definition C2_TX_ACTIVE :: "build \<Rightarrow> 8 word" where
  "C2_TX_ACTIVE b = C2_ENABLE b OR UART_C2_TIE"

definition C2_TX_COMPLETING :: "build \<Rightarrow> 8 word" where
  "C2_TX_COMPLETING b = C2_ENABLE b OR UART_C2_TCIE"

definition C2_TX_INACTIVE :: "build \<Rightarrow> 8 word" where
  "C2_TX_INACTIVE b = C2_ENABLE b"

subsection \<open>The driver's variables\<close>

text \<open>
  One field for each file-scope variable and for each peripheral register the driver
  writes.  \<open>tx_buffer_storage\<close>, \<open>rx_buffer_storage\<close>, \<open>tx_buffer_total_size\<close> and
  \<open>rx_buffer_total_size\<close>, \<open>rts_low_watermark\<close> and \<open>rts_high_watermark\<close> are the C variables
  of the same names with a trailing underscore.  A pointer to an extension array is
  \<open>None\<close> when it is \<open>NULL\<close> and otherwise holds the contents of the caller's array.  A
  pin pointer is \<open>None\<close> when it is \<open>NULL\<close> and otherwise the address of the pin's output
  register; \<open>pin_out\<close> is the level driven on the pin at each address.  \<open>UART0_D\<close> is the
  sequence of units written to the data register, oldest first.
\<close>

record serial =
  SIM_SCGC4 :: "32 word"
  UART0_C2 :: "8 word"
  UART0_C3 :: "8 word"
  UART0_CFIFO :: "8 word"
  UART0_D :: "8 word list"
  tx_buffer :: "BUFTYPE list"
  rx_buffer :: "BUFTYPE list"
  rx_buffer_storage :: "BUFTYPE list option"
  tx_buffer_storage :: "BUFTYPE list option"
  tx_buffer_total_size :: "32 word"
  rx_buffer_total_size :: "32 word"
  rts_low_watermark :: "32 word"
  rts_high_watermark :: "32 word"
  transmitting :: "8 word"
  transmit_pin :: "nat option"
  rts_pin :: "nat option"
  pin_out :: "nat \<Rightarrow> bool"
  tx_buffer_head :: "8 word"
  tx_buffer_tail :: "8 word"
  rx_buffer_head :: "8 word"
  rx_buffer_tail :: "8 word"
  half_duplex_mode :: "8 word"

text \<open>
  The values the handler reads from the peripheral's read-only registers during one
  invocation: the three reads of the status register \<open>S1\<close> (before the receive, the
  transmit and the transmit-complete block), the read after the FIFO transmit loop, the
  receive count \<open>RCFIFO\<close>, the successive reads of the data register (\<open>D_rx i\<close> is the
  \<open>i\<close>-th) and the successive reads of the transmit count \<open>TCFIFO\<close>.
\<close>

record uart0_reads =
  S1_rx :: "8 word"
  RCFIFO :: "8 word"
  D_rx :: "nat \<Rightarrow> 8 word"
  S1_tx :: "8 word"
  TCFIFO :: "nat \<Rightarrow> 8 word"
  S1_tx_end :: "8 word"
  S1_tc :: "8 word"

text \<open>
  What \<open>serial_putchar\<close> and \<open>serial_write\<close> read while they wait for room in the
  transmit ring: the result of \<open>nvic_execution_priority()\<close> and the status register.
  Both stay as they are during one call, and no interrupt handler runs inside the call:
  the handler is a step of its own.
\<close>

record cpu_reads =
  priority :: int
  S1 :: "8 word"

subsection \<open>The pin macros\<close>

text \<open>
  \<open>transmit_assert\<close> drives the transmit-enable pin high and \<open>transmit_deassert\<close> drives
  it low; \<open>rts_assert\<close> drives the RTS pin low and \<open>rts_deassert\<close> drives it high.  On
  KINETISK the macros write 1 or 0 to the pin's bit-band alias, on KINETISL they write
  the pin's mask to the set or clear register beside it; both set the level below.
\<close>

definition transmit_assert :: "nat \<Rightarrow> serial \<Rightarrow> serial" where
  "transmit_assert p s = s\<lparr>pin_out := (pin_out s)(p := True)\<rparr>"

definition transmit_deassert :: "nat \<Rightarrow> serial \<Rightarrow> serial" where
  "transmit_deassert p s = s\<lparr>pin_out := (pin_out s)(p := False)\<rparr>"

definition rts_assert :: "nat \<Rightarrow> serial \<Rightarrow> serial" where
  "rts_assert p s = s\<lparr>pin_out := (pin_out s)(p := False)\<rparr>"

definition rts_deassert :: "nat \<Rightarrow> serial \<Rightarrow> serial" where
  "rts_deassert p s = s\<lparr>pin_out := (pin_out s)(p := True)\<rparr>"

subsection \<open>Split addressing of a ring\<close>

text \<open>
  Every access to a ring has the shape
  \<^verbatim>\<open>if (i < SIZE) ... buffer[i] ... else ... storage_[i - SIZE] ...\<close>.
  \<open>ring_load\<close> and \<open>ring_store\<close> are that statement for a read and for a write; an
  index outside the array it selects, or a \<open>NULL\<close> extension, gives \<open>None\<close>.
\<close>

definition ring_load :: "32 word \<Rightarrow> BUFTYPE list \<Rightarrow> BUFTYPE list option \<Rightarrow> 32 word \<Rightarrow> BUFTYPE option" where
  "ring_load base buf storage i =
     (if i < base then
        (if unat i < length buf then Some (buf ! unat i) else None)
      else
        (case storage of
           None \<Rightarrow> None
         | Some ext \<Rightarrow> if unat (i - base) < length ext then Some (ext ! unat (i - base)) else None))"

definition ring_store ::
  "32 word \<Rightarrow> BUFTYPE list \<Rightarrow> BUFTYPE list option \<Rightarrow> 32 word \<Rightarrow> BUFTYPE
     \<Rightarrow> (BUFTYPE list \<times> BUFTYPE list option) option" where
  "ring_store base buf storage i v =
     (if i < base then
        (if unat i < length buf then Some (buf[unat i := v], storage) else None)
      else
        (case storage of
           None \<Rightarrow> None
         | Some ext \<Rightarrow>
             if unat (i - base) < length ext then Some (buf, Some (ext[unat (i - base) := v]))
             else None))"

definition tx_load :: "serial \<Rightarrow> 32 word \<Rightarrow> BUFTYPE option" where
  "tx_load s i = ring_load SERIAL1_TX_BUFFER_SIZE (tx_buffer s) (tx_buffer_storage s) i"

definition rx_load :: "serial \<Rightarrow> 32 word \<Rightarrow> BUFTYPE option" where
  "rx_load s i = ring_load SERIAL1_RX_BUFFER_SIZE (rx_buffer s) (rx_buffer_storage s) i"

definition tx_store :: "serial \<Rightarrow> 32 word \<Rightarrow> BUFTYPE \<Rightarrow> serial option" where
  "tx_store s i v =
     (case ring_store SERIAL1_TX_BUFFER_SIZE (tx_buffer s) (tx_buffer_storage s) i v of
        None \<Rightarrow> None
      | Some (buf, ext) \<Rightarrow> Some (s\<lparr>tx_buffer := buf, tx_buffer_storage := ext\<rparr>))"

definition rx_store :: "serial \<Rightarrow> 32 word \<Rightarrow> BUFTYPE \<Rightarrow> serial option" where
  "rx_store s i v =
     (case ring_store SERIAL1_RX_BUFFER_SIZE (rx_buffer s) (rx_buffer_storage s) i v of
        None \<Rightarrow> None
      | Some (buf, ext) \<Rightarrow> Some (s\<lparr>rx_buffer := buf, rx_buffer_storage := ext\<rparr>))"

text \<open>\<open>if (++i >= total_size) i = 0;\<close> on a 32-bit local.\<close>

definition advance :: "32 word \<Rightarrow> 32 word \<Rightarrow> 32 word" where
  "advance cap i = (if i + 1 \<ge> cap then 0 else i + 1)"

subsection \<open>serial\_putchar and serial\_write\<close>

text \<open>
  The block that \<open>serial_putchar\<close> and the FIFO variant of \<open>serial_write\<close> run inside
  their wait loop when the execution priority is at most \<open>IRQ_PRIORITY\<close> and the
  transmit data register is empty: pop one unit from the transmit ring into the data
  register.
\<close>

definition service_tx :: "serial \<Rightarrow> serial option" where
  "service_tx s =
     (let tail = advance (tx_buffer_total_size s) (ucast (tx_buffer_tail s)) in
      case tx_load s tail of
        None \<Rightarrow> None
      | Some n \<Rightarrow> Some (s\<lparr>UART0_D := UART0_D s @ [n], tx_buffer_tail := ucast tail\<rparr>))"

text \<open>
  Modelled from the spec: \<open>yield()\<close> is declared outside the sources; the spec describes
  it as returning control to a cooperative dispatcher that may run other application
  tasks.  Here no other task touches the driver, so it returns the variables as they are.
\<close>

definition yield :: "serial \<Rightarrow> serial" where
  "yield s = s"

text \<open>
  The body of the wait loop, the same text in \<open>serial_putchar\<close> and in the FIFO variant
  of \<open>serial_write\<close>.
\<close>

definition wait_step :: "cpu_reads \<Rightarrow> serial \<Rightarrow> serial option" where
  "wait_step e s =
     (if priority e \<le> IRQ_PRIORITY then
        (if S1 e AND UART_S1_TDRE \<noteq> 0 then service_tx s else Some s)
      else if priority e \<ge> 256 then Some (yield s)
      else Some s)"

text \<open>
  \<open>while (tx_buffer_tail == head) { ... }\<close> of \<open>serial_putchar\<close>.  With the reads fixed
  the loop either ends or spins for ever, which is the value \<open>None\<close>.
\<close>

partial_function (option) putchar_wait :: "cpu_reads \<Rightarrow> 32 word \<Rightarrow> serial \<Rightarrow> serial option" where
  "putchar_wait e head s =
     (if ucast (tx_buffer_tail s) = head then
        (case wait_step e s of None \<Rightarrow> None | Some s' \<Rightarrow> putchar_wait e head s')
      else Some s)"

definition serial_putchar :: "build \<Rightarrow> cpu_reads \<Rightarrow> 32 word \<Rightarrow> serial \<Rightarrow> serial option" where
  "serial_putchar b e c s =
     (if SIM_SCGC4 s AND SIM_SCGC4_UART0 = 0 then Some s
      else
        let s1 = (case transmit_pin s of None \<Rightarrow> s | Some p \<Rightarrow> transmit_assert p s);
            s2 = (if KINETISL b \<and> half_duplex_mode s1 \<noteq> 0
                  then s1\<lparr>UART0_C3 := UART0_C3 s1 OR UART_C3_TXDIR\<rparr> else s1);
            head = advance (tx_buffer_total_size s2) (ucast (tx_buffer_head s2))
        in case putchar_wait e head s2 of
             None \<Rightarrow> None
           | Some s3 \<Rightarrow>
               (case tx_store s3 head (ucast c) of
                  None \<Rightarrow> None
                | Some s4 \<Rightarrow>
                    Some (s4\<lparr>transmitting := 1, tx_buffer_head := ucast head,
                             UART0_C2 := C2_TX_ACTIVE b\<rparr>)))"

text \<open>\<open>do { ... } while (tx_buffer_tail == head);\<close> of the FIFO variant of \<open>serial_write\<close>.\<close>

partial_function (option) write_wait :: "cpu_reads \<Rightarrow> 32 word \<Rightarrow> serial \<Rightarrow> serial option" where
  "write_wait e head s =
     (case wait_step e s of
        None \<Rightarrow> None
      | Some s' \<Rightarrow> if ucast (tx_buffer_tail s') = head then write_wait e head s' else Some s')"

text \<open>
  The argument \<open>buf\<close> of \<open>serial_write\<close> is the contents of the caller's array from the
  pointer on; reading past its end gives \<open>None\<close>.  \<open>write_fifo\<close> is the loop
  \<open>while (p < end)\<close> of the FIFO variant and \<open>write_each\<close> the loop
  \<open>while (count-- > 0) serial_putchar(*p++)\<close> of the other, each on the number of units
  still to write.
\<close>

fun write_fifo :: "build \<Rightarrow> cpu_reads \<Rightarrow> 8 word list \<Rightarrow> nat \<Rightarrow> serial \<Rightarrow> serial option" where
  "write_fifo b e p 0 s = Some s"
| "write_fifo b e p (Suc n) s =
     (let head = advance (tx_buffer_total_size s) (ucast (tx_buffer_head s)) in
      case (if ucast (tx_buffer_tail s) = head
            then write_wait e head (s\<lparr>UART0_C2 := C2_TX_ACTIVE b\<rparr>) else Some s) of
        None \<Rightarrow> None
      | Some s1 \<Rightarrow>
          (case p of
             [] \<Rightarrow> None
           | x # p' \<Rightarrow>
               (case tx_store s1 head x of
                  None \<Rightarrow> None
                | Some s2 \<Rightarrow>
                    write_fifo b e p' n (s2\<lparr>transmitting := 1, tx_buffer_head := ucast head\<rparr>))))"

fun write_each :: "build \<Rightarrow> cpu_reads \<Rightarrow> 8 word list \<Rightarrow> nat \<Rightarrow> serial \<Rightarrow> serial option" where
  "write_each b e p 0 s = Some s"
| "write_each b e p (Suc n) s =
     (case p of
        [] \<Rightarrow> None
      | x # p' \<Rightarrow>
          (case serial_putchar b e (ucast x) s of
             None \<Rightarrow> None
           | Some s' \<Rightarrow> write_each b e p' n s'))"

definition serial_write :: "build \<Rightarrow> cpu_reads \<Rightarrow> 8 word list \<Rightarrow> 32 word \<Rightarrow> serial \<Rightarrow> serial option" where
  "serial_write b e buf count s =
     (if HAS_KINETISK_UART0_FIFO b then
        (if SIM_SCGC4 s AND SIM_SCGC4_UART0 = 0 then Some s
         else
           let s1 = (case transmit_pin s of None \<Rightarrow> s | Some p \<Rightarrow> transmit_assert p s)
           in case write_fifo b e buf (unat count) s1 of
                None \<Rightarrow> None
              | Some s2 \<Rightarrow> Some (s2\<lparr>UART0_C2 := C2_TX_ACTIVE b\<rparr>))
      else write_each b e buf (unat count) s)"

subsection \<open>The readers of the rings\<close>

text \<open>
  Each function returns its C result and the variables after the call.  The \<open>int\<close>
  results are the 32-bit values the C expressions compute, read as signed.
\<close>

definition serial_write_buffer_free :: "serial \<Rightarrow> int \<times> serial" where
  "serial_write_buffer_free s =
     (let head = (ucast (tx_buffer_head s) :: 32 word);
          tail = (ucast (tx_buffer_tail s) :: 32 word)
      in if head \<ge> tail then (sint (tx_buffer_total_size s - 1 - head + tail), s)
         else (sint (tail - head - 1), s))"

definition serial_available :: "serial \<Rightarrow> int \<times> serial" where
  "serial_available s =
     (let head = (ucast (rx_buffer_head s) :: 32 word);
          tail = (ucast (rx_buffer_tail s) :: 32 word)
      in if head \<ge> tail then (sint (head - tail), s)
         else (sint (rx_buffer_total_size s + head - tail), s))"

text \<open>
  \<open>avail\<close> is an \<open>int\<close> and the watermarks are \<open>size_t\<close>, so C compares them as
  unsigned 32-bit values.
\<close>

definition rx_avail :: "serial \<Rightarrow> 32 word \<Rightarrow> 32 word \<Rightarrow> 32 word" where
  "rx_avail s head tail =
     (if head \<ge> tail then head - tail else rx_buffer_total_size s + head - tail)"

definition serial_getchar :: "serial \<Rightarrow> (int \<times> serial) option" where
  "serial_getchar s =
     (let head = (ucast (rx_buffer_head s) :: 32 word);
          tail = (ucast (rx_buffer_tail s) :: 32 word)
      in if head = tail then Some (- 1, s)
         else
           let tail = advance (rx_buffer_total_size s) tail in
           case rx_load s tail of
             None \<Rightarrow> None
           | Some c \<Rightarrow>
               let s1 = s\<lparr>rx_buffer_tail := ucast tail\<rparr>;
                   s2 = (case rts_pin s1 of
                           None \<Rightarrow> s1
                         | Some p \<Rightarrow>
                             if rx_avail s1 head tail \<le> rts_low_watermark s1
                             then rts_assert p s1 else s1)
               in Some (uint c, s2))"

definition serial_peek :: "serial \<Rightarrow> (int \<times> serial) option" where
  "serial_peek s =
     (let head = (ucast (rx_buffer_head s) :: 32 word);
          tail = (ucast (rx_buffer_tail s) :: 32 word)
      in if head = tail then Some (- 1, s)
         else
           let tail = advance (rx_buffer_total_size s) tail in
           case rx_load s tail of
             None \<Rightarrow> None
           | Some c \<Rightarrow> Some (uint c, s))"

definition serial_clear :: "build \<Rightarrow> serial \<Rightarrow> serial" where
  "serial_clear b s =
     (if HAS_KINETISK_UART0_FIFO b \<and> SIM_SCGC4 s AND SIM_SCGC4_UART0 = 0 then s
      else
        let s1 = (if HAS_KINETISK_UART0_FIFO b then
                    s\<lparr>UART0_C2 :=
                         (UART0_C2 s AND NOT (UART_C2_RE OR UART_C2_RIE OR UART_C2_ILIE))
                           OR (UART_C2_RE OR UART_C2_RIE OR UART_C2_ILIE),
                       UART0_CFIFO := UART_CFIFO_RXFLUSH\<rparr>
                  else s);
            s2 = s1\<lparr>rx_buffer_head := rx_buffer_tail s1\<rparr>
        in case rts_pin s2 of None \<Rightarrow> s2 | Some p \<Rightarrow> rts_assert p s2)"

subsection \<open>The status interrupt handler\<close>

text \<open>
  \<open>uart0_status_isr\<close> handles three conditions one after the other.  The three blocks are
  separate definitions here; each has the text of both variants of the file.

  The receive block.  In the FIFO variant \<open>rx_drain\<close> is the loop
  \<open>do { ... } while (--avail > 0)\<close>, which runs its body \<open>avail\<close> times; \<open>i\<close> counts the
  reads of the data register.
\<close>

fun rx_drain :: "uart0_reads \<Rightarrow> 32 word \<Rightarrow> nat \<Rightarrow> nat \<Rightarrow> 32 word \<Rightarrow> serial \<Rightarrow> (32 word \<times> serial) option" where
  "rx_drain r tail 0 i head s = Some (head, s)"
| "rx_drain r tail (Suc k) i head s =
     (let n = D_rx r i;
          newhead = advance (rx_buffer_total_size s) head
      in if newhead \<noteq> tail then
           (case rx_store s newhead n of
              None \<Rightarrow> None
            | Some s' \<Rightarrow> rx_drain r tail k (Suc i) newhead s')
         else rx_drain r tail k (Suc i) head s)"

definition uart0_status_isr_rx :: "build \<Rightarrow> uart0_reads \<Rightarrow> serial \<Rightarrow> serial option" where
  "uart0_status_isr_rx b r s =
     (if HAS_KINETISK_UART0_FIFO b then
        (if S1_rx r AND (UART_S1_RDRF OR UART_S1_IDLE) \<noteq> 0 then
           (let avail = RCFIFO r in
            if avail = 0 then Some (s\<lparr>UART0_CFIFO := UART_CFIFO_RXFLUSH\<rparr>)
            else
              let head = (ucast (rx_buffer_head s) :: 32 word);
                  tail = (ucast (rx_buffer_tail s) :: 32 word)
              in case rx_drain r tail (unat avail) 0 head s of
                   None \<Rightarrow> None
                 | Some (head, s1) \<Rightarrow>
                     let s2 = s1\<lparr>rx_buffer_head := ucast head\<rparr>
                     in Some (case rts_pin s2 of
                                None \<Rightarrow> s2
                              | Some p \<Rightarrow>
                                  if rx_avail s2 head tail \<ge> rts_high_watermark s2
                                  then rts_deassert p s2 else s2))
         else Some s)
      else
        (if S1_rx r AND UART_S1_RDRF \<noteq> 0 then
           (let n = D_rx r 0;
                head = advance (rx_buffer_total_size s) (ucast (rx_buffer_head s))
            in if head \<noteq> ucast (rx_buffer_tail s) then
                 (case rx_store s head n of
                    None \<Rightarrow> None
                  | Some s' \<Rightarrow> Some (s'\<lparr>rx_buffer_head := ucast head\<rparr>))
               else Some s)
         else Some s))"

text \<open>
  The transmit block.  \<open>tx_fill\<close> is the loop \<open>do { ... } while (UART0_TCFIFO < 8)\<close> of the
  FIFO variant; \<open>k\<close> counts the reads of \<open>TCFIFO\<close>.
\<close>

partial_function (option) tx_fill :: "uart0_reads \<Rightarrow> 32 word \<Rightarrow> nat \<Rightarrow> 32 word \<Rightarrow> serial \<Rightarrow> (32 word \<times> serial) option" where
  "tx_fill r head k tail s =
     (if tail = head then Some (tail, s)
      else
        let tail' = advance (tx_buffer_total_size s) tail in
        case tx_load s tail' of
          None \<Rightarrow> None
        | Some n \<Rightarrow>
            let s' = s\<lparr>UART0_D := UART0_D s @ [n]\<rparr>
            in if TCFIFO r k < 8 then tx_fill r head (Suc k) tail' s' else Some (tail', s'))"

definition uart0_status_isr_tx :: "build \<Rightarrow> uart0_reads \<Rightarrow> 8 word \<Rightarrow> serial \<Rightarrow> serial option" where
  "uart0_status_isr_tx b r c s =
     (if c AND UART_C2_TIE \<noteq> 0 \<and> S1_tx r AND UART_S1_TDRE \<noteq> 0 then
        (let head = (ucast (tx_buffer_head s) :: 32 word);
             tail = (ucast (tx_buffer_tail s) :: 32 word)
         in if HAS_KINETISK_UART0_FIFO b then
              (case tx_fill r head 0 tail s of
                 None \<Rightarrow> None
               | Some (tail, s1) \<Rightarrow>
                   let s2 = s1\<lparr>tx_buffer_tail := ucast tail\<rparr>
                   in Some (if S1_tx_end r AND UART_S1_TDRE \<noteq> 0
                            then s2\<lparr>UART0_C2 := C2_TX_COMPLETING b\<rparr> else s2))
            else
              (if head = tail then Some (s\<lparr>UART0_C2 := C2_TX_COMPLETING b\<rparr>)
               else
                 let tail = advance (tx_buffer_total_size s) tail in
                 case tx_load s tail of
                   None \<Rightarrow> None
                 | Some n \<Rightarrow> Some (s\<lparr>UART0_D := UART0_D s @ [n], tx_buffer_tail := ucast tail\<rparr>)))
      else Some s)"

text \<open>The transmit-complete block.\<close>

definition uart0_status_isr_tc :: "build \<Rightarrow> uart0_reads \<Rightarrow> 8 word \<Rightarrow> serial \<Rightarrow> serial" where
  "uart0_status_isr_tc b r c s =
     (if c AND UART_C2_TCIE \<noteq> 0 \<and> S1_tc r AND UART_S1_TC \<noteq> 0 then
        let s1 = s\<lparr>transmitting := 0\<rparr>;
            s2 = (case transmit_pin s1 of None \<Rightarrow> s1 | Some p \<Rightarrow> transmit_deassert p s1);
            s3 = (if KINETISL b \<and> half_duplex_mode s2 \<noteq> 0
                  then s2\<lparr>UART0_C3 := UART0_C3 s2 AND NOT UART_C3_TXDIR\<rparr> else s2)
        in s3\<lparr>UART0_C2 := C2_TX_INACTIVE b\<rparr>
      else s)"

text \<open>The handler: \<open>c = UART0_C2\<close> is read once, between the receive and the transmit block.\<close>

definition uart0_status_isr :: "build \<Rightarrow> uart0_reads \<Rightarrow> serial \<Rightarrow> serial option" where
  "uart0_status_isr b r s =
     (case uart0_status_isr_rx b r s of
        None \<Rightarrow> None
      | Some s1 \<Rightarrow>
          let c = UART0_C2 s1 in
          case uart0_status_isr_tx b r c s1 of
            None \<Rightarrow> None
          | Some s2 \<Rightarrow> Some (uart0_status_isr_tc b r c s2))"

subsection \<open>serial\_print and the extension memory\<close>

text \<open>
  The argument of \<open>serial_print\<close> is the contents of the caller's array from the pointer
  on; \<open>char\<close> is unsigned, so a character reaches \<open>serial_putchar\<close> as its value.
  Reading past the end of the array gives \<open>None\<close>.
\<close>

fun serial_print :: "build \<Rightarrow> cpu_reads \<Rightarrow> 8 word list \<Rightarrow> serial \<Rightarrow> serial option" where
  "serial_print b e [] s = None"
| "serial_print b e (c # p) s =
     (if c = 0 then Some s
      else
        case (if c = 10 then serial_putchar b e 13 s else Some s) of
          None \<Rightarrow> None
        | Some s1 \<Rightarrow>
            (case serial_putchar b e (ucast c) s1 of
               None \<Rightarrow> None
             | Some s2 \<Rightarrow> serial_print b e p s2))"

definition serial_add_memory_for_read :: "BUFTYPE list option \<Rightarrow> 32 word \<Rightarrow> serial \<Rightarrow> serial" where
  "serial_add_memory_for_read buffer len s =
     s\<lparr>rx_buffer_storage := buffer,
       rx_buffer_total_size :=
         (if buffer \<noteq> None then SERIAL1_RX_BUFFER_SIZE + len else SERIAL1_RX_BUFFER_SIZE),
       rts_low_watermark := RTS_LOW_WATERMARK + len,
       rts_high_watermark := RTS_HIGH_WATERMARK + len\<rparr>"

definition serial_add_memory_for_write :: "BUFTYPE list option \<Rightarrow> 32 word \<Rightarrow> serial \<Rightarrow> serial" where
  "serial_add_memory_for_write buffer len s =
     s\<lparr>tx_buffer_storage := buffer,
       tx_buffer_total_size :=
         (if buffer \<noteq> None then SERIAL1_TX_BUFFER_SIZE + len else SERIAL1_TX_BUFFER_SIZE)\<rparr>"

subsection \<open>Start-up\<close>

text \<open>
  \<open>startup\<close> holds the initial values of the file-scope variables (the static arrays are
  zero-filled, the pointers \<open>NULL\<close>) with the registers cleared.  \<open>serial_begin\<close> is the
  part of the C function that touches the variables and registers of the record; the
  pin multiplexing, the baud rate divisor and the interrupt controller are left out.
\<close>

definition startup :: serial where
  "startup =
     \<lparr>SIM_SCGC4 = 0, UART0_C2 = 0, UART0_C3 = 0, UART0_CFIFO = 0, UART0_D = [],
      tx_buffer = replicate 64 0, rx_buffer = replicate 64 0,
      rx_buffer_storage = None, tx_buffer_storage = None,
      tx_buffer_total_size = SERIAL1_TX_BUFFER_SIZE,
      rx_buffer_total_size = SERIAL1_RX_BUFFER_SIZE,
      rts_low_watermark = RTS_LOW_WATERMARK, rts_high_watermark = RTS_HIGH_WATERMARK,
      transmitting = 0, transmit_pin = None, rts_pin = None, pin_out = (\<lambda>p. False),
      tx_buffer_head = 0, tx_buffer_tail = 0, rx_buffer_head = 0, rx_buffer_tail = 0,
      half_duplex_mode = 0\<rparr>"

definition serial_begin :: "build \<Rightarrow> serial \<Rightarrow> serial" where
  "serial_begin b s =
     s\<lparr>SIM_SCGC4 := SIM_SCGC4 s OR SIM_SCGC4_UART0,
       rx_buffer_head := 0, rx_buffer_tail := 0,
       tx_buffer_head := 0, tx_buffer_tail := 0,
       transmitting := 0,
       UART0_C2 := C2_TX_INACTIVE b\<rparr>"

text \<open>The two variants of the file: the K-series build with the hardware FIFO, and the L-series build.\<close>

definition kinetisk :: build where
  "kinetisk = \<lparr>KINETISL = False, HAS_KINETISK_UART0_FIFO = True\<rparr>"

definition kinetisl :: build where
  "kinetisl = \<lparr>KINETISL = True, HAS_KINETISK_UART0_FIFO = False\<rparr>"

subsection \<open>Well-formed rings\<close>

text \<open>
  The data model of a ring: the static array has its 64 slots, the extension array covers
  every index from 64 up to the total size, and head and tail are below the total size.
\<close>

definition storage_covers :: "32 word \<Rightarrow> BUFTYPE list option \<Rightarrow> bool" where
  "storage_covers cap storage =
     (case storage of None \<Rightarrow> unat cap \<le> 64 | Some ext \<Rightarrow> unat cap \<le> 64 + length ext)"

definition tx_ok :: "serial \<Rightarrow> bool" where
  "tx_ok s =
     (length (tx_buffer s) = 64 \<and>
      storage_covers (tx_buffer_total_size s) (tx_buffer_storage s) \<and>
      unat (tx_buffer_head s) < unat (tx_buffer_total_size s) \<and>
      unat (tx_buffer_tail s) < unat (tx_buffer_total_size s))"

definition rx_ok :: "serial \<Rightarrow> bool" where
  "rx_ok s =
     (length (rx_buffer s) = 64 \<and>
      storage_covers (rx_buffer_total_size s) (rx_buffer_storage s) \<and>
      unat (rx_buffer_head s) < unat (rx_buffer_total_size s) \<and>
      unat (rx_buffer_tail s) < unat (rx_buffer_total_size s))"

text \<open>
  The specification's indexing rule: an index below the base capacity addresses the
  static array, any other index \<open>i\<close> addresses slot \<open>i - 64\<close> of the extension.
\<close>

definition unit_at :: "BUFTYPE list \<Rightarrow> BUFTYPE list option \<Rightarrow> nat \<Rightarrow> BUFTYPE" where
  "unit_at buf storage i =
     (if i < 64 then buf ! i else (case storage of None \<Rightarrow> 0 | Some ext \<Rightarrow> ext ! (i - 64)))"

text \<open>
  \<open>narrow\<close>: every index of the two rings fits the \<open>uint8_t\<close> head and tail.
  \<open>driver_ok\<close>: the peripheral is enabled and both rings are well formed and narrow.
\<close>

definition enabled :: "serial \<Rightarrow> bool" where
  "enabled s = (SIM_SCGC4 s AND SIM_SCGC4_UART0 \<noteq> 0)"

definition narrow :: "serial \<Rightarrow> bool" where
  "narrow s = (unat (tx_buffer_total_size s) \<le> 256 \<and> unat (rx_buffer_total_size s) \<le> 256)"

definition driver_ok :: "serial \<Rightarrow> bool" where
  "driver_ok s = (enabled s \<and> tx_ok s \<and> rx_ok s \<and> narrow s)"

text \<open>The variables of each ring, for stating what a function leaves alone.\<close>

definition tx_ring ::
  "serial \<Rightarrow> 8 word \<times> 8 word \<times> BUFTYPE list \<times> BUFTYPE list option \<times> 32 word" where
  "tx_ring s =
     (tx_buffer_head s, tx_buffer_tail s, tx_buffer s, tx_buffer_storage s, tx_buffer_total_size s)"

definition rx_ring ::
  "serial \<Rightarrow> 8 word \<times> 8 word \<times> BUFTYPE list \<times> BUFTYPE list option \<times> 32 word" where
  "rx_ring s =
     (rx_buffer_head s, rx_buffer_tail s, rx_buffer s, rx_buffer_storage s, rx_buffer_total_size s)"

text \<open>
  The specification's reading of \<open>serial_print\<close>: the characters of the string in order,
  with a carriage return before every line feed, handed one by one to \<open>serial_putchar\<close>.
\<close>

fun crlf :: "8 word list \<Rightarrow> 32 word list" where
  "crlf [] = []"
| "crlf (c # cs) = (if c = 10 then [13, 10] else [ucast c]) @ crlf cs"

fun enqueue_all :: "build \<Rightarrow> cpu_reads \<Rightarrow> 32 word list \<Rightarrow> serial \<Rightarrow> serial option" where
  "enqueue_all b e [] s = Some s"
| "enqueue_all b e (c # cs) s =
     (case serial_putchar b e c s of None \<Rightarrow> None | Some s' \<Rightarrow> enqueue_all b e cs s')"

subsection \<open>The rings as queues\<close>

text \<open>
  The units that wait in a ring, oldest first: \<open>ring_units f T t n\<close> lists the \<open>n\<close> slots
  after the tail \<open>t\<close> of a ring of \<open>T\<close> slots with contents \<open>f\<close>.  The occupied count is
  \<open>(head - tail) mod total\<close>.
\<close>

fun ring_units :: "(nat \<Rightarrow> 'a) \<Rightarrow> nat \<Rightarrow> nat \<Rightarrow> nat \<Rightarrow> 'a list" where
  "ring_units f T t 0 = []"
| "ring_units f T t (Suc n) = f ((t + 1) mod T) # ring_units f T ((t + 1) mod T) n"

definition tx_occupied :: "serial \<Rightarrow> nat" where
  "tx_occupied s =
     (unat (tx_buffer_head s) + unat (tx_buffer_total_size s) - unat (tx_buffer_tail s))
       mod unat (tx_buffer_total_size s)"

definition rx_occupied :: "serial \<Rightarrow> nat" where
  "rx_occupied s =
     (unat (rx_buffer_head s) + unat (rx_buffer_total_size s) - unat (rx_buffer_tail s))
       mod unat (rx_buffer_total_size s)"

definition tx_pending :: "serial \<Rightarrow> BUFTYPE list" where
  "tx_pending s =
     ring_units (unit_at (tx_buffer s) (tx_buffer_storage s)) (unat (tx_buffer_total_size s))
       (unat (tx_buffer_tail s)) (tx_occupied s)"

definition rx_pending :: "serial \<Rightarrow> BUFTYPE list" where
  "rx_pending s =
     ring_units (unit_at (rx_buffer s) (rx_buffer_storage s)) (unat (rx_buffer_total_size s))
       (unat (rx_buffer_tail s)) (rx_occupied s)"

text \<open>
  A run of the driver: the application calls \<open>serial_putchar\<close> and \<open>serial_getchar\<close>, and
  the handler runs between the calls.  The state of a run is the driver's variables and
  the units \<open>serial_getchar\<close> has returned so far (its result \<open>-1\<close> is no unit).
\<close>

datatype event = Put "32 word" | Irq uart0_reads | Get

fun step :: "build \<Rightarrow> cpu_reads \<Rightarrow> event \<Rightarrow> serial \<times> int list \<Rightarrow> (serial \<times> int list) option" where
  "step b e (Put c) (s, got) = map_option (\<lambda>s'. (s', got)) (serial_putchar b e c s)"
| "step b e (Irq r) (s, got) = map_option (\<lambda>s'. (s', got)) (uart0_status_isr b r s)"
| "step b e Get (s, got) =
     map_option (\<lambda>(c, s'). (s', if c = - 1 then got else got @ [c])) (serial_getchar s)"

fun run :: "build \<Rightarrow> cpu_reads \<Rightarrow> event list \<Rightarrow> serial \<times> int list \<Rightarrow> (serial \<times> int list) option" where
  "run b e [] x = Some x"
| "run b e (ev # evs) x = (case step b e ev x of None \<Rightarrow> None | Some x' \<Rightarrow> run b e evs x')"

text \<open>
  The units a run hands to \<open>serial_putchar\<close>, and the units that arrive at the handler
  without the FIFO (one for each invocation that reads \<open>RDRF\<close> set).
\<close>

fun enqueued :: "event list \<Rightarrow> 8 word list" where
  "enqueued [] = []"
| "enqueued (Put c # evs) = ucast c # enqueued evs"
| "enqueued (ev # evs) = enqueued evs"

fun arrived :: "event list \<Rightarrow> 8 word list" where
  "arrived [] = []"
| "arrived (Irq r # evs) = (if S1_rx r AND UART_S1_RDRF \<noteq> 0 then D_rx r 0 # arrived evs else arrived evs)"
| "arrived (ev # evs) = arrived evs"

text \<open>
  A run never has more than \<open>total - 1\<close> units pending: every \<open>serial_putchar\<close> finds the
  transmit ring with a free slot, and every unit that arrives finds one in the receive
  ring.
\<close>

fun has_room :: "event \<Rightarrow> serial \<Rightarrow> bool" where
  "has_room (Put c) s = (tx_occupied s + 1 < unat (tx_buffer_total_size s))"
| "has_room (Irq r) s =
     (S1_rx r AND UART_S1_RDRF = 0 \<or> rx_occupied s + 1 < unat (rx_buffer_total_size s))"
| "has_room Get s = True"

fun never_overfull :: "build \<Rightarrow> cpu_reads \<Rightarrow> event list \<Rightarrow> serial \<times> int list \<Rightarrow> bool" where
  "never_overfull b e [] x = True"
| "never_overfull b e (ev # evs) x =
     (has_room ev (fst x) \<and>
      (case step b e ev x of None \<Rightarrow> True | Some x' \<Rightarrow> never_overfull b e evs x'))"

subsection \<open>States and reads used in the closed instances\<close>

text \<open>
  \<open>thread_mode\<close>: the caller runs at ordinary priority (\<open>nvic_execution_priority()\<close>
  returns 256) and the transmit data register is not empty.  \<open>example_rings\<close>: the
  peripheral is enabled, the receive ring holds 7 units (head 3, tail 60) and the
  transmit ring 6 (head 10, tail 4).
\<close>

definition thread_mode :: cpu_reads where
  "thread_mode = \<lparr>priority = 256, S1 = 0\<rparr>"

definition example_rings :: serial where
  "example_rings =
     startup\<lparr>SIM_SCGC4 := SIM_SCGC4_UART0,
             rx_buffer_head := 3, rx_buffer_tail := 60,
             tx_buffer_head := 10, tx_buffer_tail := 4\<rparr>"

text \<open>
  Three sets of reads for the handler: a unit \<open>0x55\<close> has arrived (one unit in the
  hardware FIFO, where there is one); the transmit data register is empty; the
  transmission is complete.
\<close>

definition rx_event :: uart0_reads where
  "rx_event =
     \<lparr>S1_rx = UART_S1_RDRF, RCFIFO = 1, D_rx = (\<lambda>i. 0x55), S1_tx = 0,
      TCFIFO = (\<lambda>k. 0), S1_tx_end = 0, S1_tc = 0\<rparr>"

definition tx_event :: uart0_reads where
  "tx_event =
     \<lparr>S1_rx = 0, RCFIFO = 0, D_rx = (\<lambda>i. 0), S1_tx = UART_S1_TDRE,
      TCFIFO = (\<lambda>k. 0), S1_tx_end = 0, S1_tc = 0\<rparr>"

definition tc_event :: uart0_reads where
  "tc_event =
     \<lparr>S1_rx = 0, RCFIFO = 0, D_rx = (\<lambda>i. 0), S1_tx = UART_S1_TDRE,
      TCFIFO = (\<lambda>k. 0), S1_tx_end = 0, S1_tc = UART_S1_TC\<rparr>"

text \<open>
  \<open>full_rx\<close>: the receive ring of 64 slots holds 63 units (head 62, tail 63).
  \<open>one_pending\<close>: the variables after \<open>serial_begin\<close> and \<open>serial_putchar('A')\<close> in the
  L-series build.  \<open>drained\<close>: the same after the handler has sent the unit.
  \<open>completing\<close>: the same after the handler has found the ring empty.
\<close>

definition full_rx :: serial where
  "full_rx = startup\<lparr>SIM_SCGC4 := SIM_SCGC4_UART0, rx_buffer_head := 62, rx_buffer_tail := 63\<rparr>"

definition one_pending :: serial where
  "one_pending =
     startup\<lparr>SIM_SCGC4 := SIM_SCGC4_UART0, UART0_C2 := C2_TX_ACTIVE kinetisl,
             tx_buffer := (replicate 64 0)[1 := 65], transmitting := 1, tx_buffer_head := 1\<rparr>"

definition drained :: serial where
  "drained = one_pending\<lparr>UART0_D := [65], tx_buffer_tail := 1\<rparr>"

definition completing :: serial where
  "completing = drained\<lparr>UART0_C2 := C2_TX_COMPLETING kinetisl\<rparr>"

text \<open>
  \<open>wide_rx\<close>: an extension of 200 slots is installed for the receive ring (total size
  264), 256 units have been received and 255 of them read, so that the one unit that
  waits (\<open>0x41\<close>) lies at index 256, slot 192 of the extension; the head, stored in
  8 bits, reads 0 and the tail 255.  \<open>near_high\<close>: an RTS pin is configured (at address 6,
  driven low: asserted) and the receive ring holds 39 units, one below the high
  watermark.  \<open>at_high\<close>: the same with the unit \<open>0x55\<close> received.
\<close>

definition wide_rx :: serial where
  "wide_rx =
     (serial_add_memory_for_read (Some (replicate 192 0 @ [65] @ replicate 7 0)) 200
        (serial_begin kinetisl startup))\<lparr>rx_buffer_head := 0, rx_buffer_tail := 255\<rparr>"

definition near_high :: serial where
  "near_high =
     (serial_begin kinetisl startup)\<lparr>rts_pin := Some 6, rx_buffer_head := 39, rx_buffer_tail := 0\<rparr>"

definition at_high :: serial where
  "at_high = near_high\<lparr>rx_buffer := (replicate 64 0)[40 := 0x55], rx_buffer_head := 40\<rparr>"

text \<open>
  \<open>wide_tx\<close>: an extension of 200 slots is installed for the transmit ring after
  \<open>serial_begin\<close>, which makes the total size 264.
\<close>

definition wide_tx :: serial where
  "wide_tx = serial_add_memory_for_write (Some (replicate 200 0)) 200 (serial_begin kinetisl startup)"

section \<open>Basic facts\<close>

subsection \<open>Index arithmetic\<close>

lemma unat_8_lt: "unat (a :: 8 word) < 256"
  using unsigned_less [of a, where ?'a = nat] by simp

lemma unat_ucast_8_32: "unat (ucast (a :: 8 word) :: 32 word) = unat a"
  using unat_8_lt [of a] by (simp add: unsigned_ucast_eq take_bit_nat_eq_self)

lemma unat_ucast_32_8: "unat x < 256 \<Longrightarrow> unat (ucast (x :: 32 word) :: 8 word) = unat x"
  by (simp add: unsigned_ucast_eq take_bit_nat_eq_self)

lemma ucast_ucast_8: "(ucast (ucast (a :: 8 word) :: 32 word) :: 8 word) = a"
  by (simp add: word_eq_iff_unsigned [where ?'a = nat] unat_ucast_32_8 unat_ucast_8_32 unat_8_lt)

lemma ucast_8_32_inj: "((ucast (a :: 8 word) :: 32 word) = ucast b) = (a = b)"
  by (simp add: word_eq_iff_unsigned [where ?'a = nat] unat_ucast_8_32)

lemma ucast_8_32_le: "((ucast (a :: 8 word) :: 32 word) \<le> ucast b) = (a \<le> b)"
  by (simp add: word_le_nat_alt unat_ucast_8_32)

lemma unat_advance:
  "unat i < 2 ^ 32 - 1 \<Longrightarrow>
   unat (advance cap i) = (if unat cap \<le> unat i + 1 then 0 else unat i + 1)"
  unfolding advance_def by (simp add: word_le_nat_alt unat_word_ariths)

lemma occ_nat_ge: "t \<le> h \<Longrightarrow> h < T \<Longrightarrow> (h + T - t) mod T = h - t" for h t T :: nat
proof -
  assume a: "t \<le> h" "h < T"
  have "h + T - t = (h - t) + T" using a by linarith
  then have "(h + T - t) mod T = ((h - t) + T) mod T" by (rule arg_cong)
  also have "\<dots> = (h - t) mod T" by (rule mod_add_self2)
  also have "\<dots> = h - t" using a by (intro mod_less) linarith
  finally show ?thesis .
qed

lemma occ_nat_lt: "h < t \<Longrightarrow> t < T \<Longrightarrow> (h + T - t) mod T = T - (t - h)" for h t T :: nat
proof -
  assume a: "h < t" "t < T"
  have "h + T - t = T - (t - h)" using a by linarith
  then have "(h + T - t) mod T = (T - (t - h)) mod T" by (rule arg_cong)
  also have "\<dots> = T - (t - h)" using a by (intro mod_less) linarith
  finally show ?thesis .
qed

lemma occ_ge:
  fixes h t T :: "32 word"
  assumes "t \<le> h" "unat h < unat T"
  shows "unat (h - t) = (unat h + unat T - unat t) mod unat T"
proof -
  have le: "unat t \<le> unat h" using assms(1) by (simp add: word_le_nat_alt)
  have "unat (h - t) = unat h - unat t" using le by (simp add: unat_sub_if_size)
  also have "\<dots> = (unat h + unat T - unat t) mod unat T"
    using le assms(2) by (rule occ_nat_ge [symmetric])
  finally show ?thesis .
qed

lemma occ_lt:
  fixes h t T :: "32 word"
  assumes "\<not> t \<le> h" "unat t < unat T"
  shows "unat (T + h - t) = (unat h + unat T - unat t) mod unat T"
proof -
  have lt: "unat h < unat t" using assms(1) by (simp add: word_le_nat_alt)
  have "T + h - t = T - (t - h)" by (simp add: algebra_simps)
  then have "unat (T + h - t) = unat (T - (t - h))" by (rule arg_cong)
  also have "\<dots> = unat T - unat (t - h)"
    using lt assms(2) by (simp add: unat_sub_if_size)
  also have "\<dots> = unat T - (unat t - unat h)"
    using lt by (simp add: unat_sub_if_size)
  also have "\<dots> = (unat h + unat T - unat t) mod unat T"
    using lt assms(2) by (rule occ_nat_lt [symmetric])
  finally show ?thesis .
qed

lemma sint_small:
  assumes "unat (x :: 32 word) < 2 ^ 31"
  shows "sint x = int (unat x)"
proof -
  have "int (unat x) < int (2 ^ 31)" using assms by (simp only: of_nat_less_iff)
  then have b: "uint x < 2 ^ 31" by simp
  have c: "- (2 ^ 31) \<le> uint x" by (rule order_trans [of _ 0]) simp_all
  have "signed_take_bit 31 (uint x) = uint x"
    using c b by (rule signed_take_bit_int_eq_self)
  then show ?thesis by (simp add: sint_uint)
qed

lemma occ_int:
  "t < T \<Longrightarrow> int ((h + T - t) mod T) = (int h - int t) mod int T" for h t T :: nat
proof -
  assume "t < T"
  then have "int (h + T - t) = int h - int t + int T" by simp
  then have "int ((h + T - t) mod T) = (int h - int t + int T) mod int T"
    by (simp only: zmod_int)
  then show ?thesis by simp
qed

lemma rx_avail_unat:
  assumes "unat h < unat (rx_buffer_total_size s)" "unat t < unat (rx_buffer_total_size s)"
  shows "unat (rx_avail s h t) =
           (unat h + unat (rx_buffer_total_size s) - unat t) mod unat (rx_buffer_total_size s)"
  using assms by (simp add: rx_avail_def occ_ge occ_lt)

subsection \<open>Occupancy and free space as numbers\<close>

lemma free_ge:
  fixes h t T :: "32 word"
  assumes "t \<le> h" "unat h < unat T"
  shows "unat (T - 1 - h + t) = unat T - 1 - (unat h + unat T - unat t) mod unat T"
proof -
  have le: "unat t \<le> unat h" using assms(1) by (simp add: word_le_nat_alt)
  have d: "unat (h - t) = unat h - unat t" using le by (simp add: unat_sub_if_size)
  have one: "unat (1 + (h - t)) = 1 + (unat h - unat t)"
    using d assms(2) unsigned_less [of T, where ?'a = nat] by (simp add: unat_word_ariths)
  have "T - 1 - h + t = T - (1 + (h - t))" by (simp add: algebra_simps)
  then have "unat (T - 1 - h + t) = unat (T - (1 + (h - t)))" by (rule arg_cong)
  also have "\<dots> = unat T - unat (1 + (h - t))"
    using one le assms(2) by (simp add: unat_sub_if_size)
  also have "\<dots> = unat T - 1 - (unat h - unat t)" unfolding one by simp
  also have "\<dots> = unat T - 1 - (unat h + unat T - unat t) mod unat T"
    using le assms(2) by (simp only: occ_nat_ge)
  finally show ?thesis .
qed

lemma free_lt:
  fixes h t T :: "32 word"
  assumes "\<not> t \<le> h" "unat t < unat T"
  shows "unat (t - h - 1) = unat T - 1 - (unat h + unat T - unat t) mod unat T"
proof -
  have lt: "unat h < unat t" using assms(1) by (simp add: word_le_nat_alt)
  have d: "unat (t - h) = unat t - unat h" using lt by (simp add: unat_sub_if_size)
  have "unat (t - h - 1) = unat (t - h) - 1"
    using d lt by (simp add: unat_sub_if_size)
  also have "\<dots> = unat t - unat h - 1" unfolding d ..
  also have "\<dots> = unat T - 1 - (unat T - (unat t - unat h))" using lt assms(2) by linarith
  also have "\<dots> = unat T - 1 - (unat h + unat T - unat t) mod unat T"
    using lt assms(2) by (simp only: occ_nat_lt)
  finally show ?thesis .
qed

lemma serial_available_value:
  assumes "unat (rx_buffer_head s) < unat (rx_buffer_total_size s)"
      and "unat (rx_buffer_tail s) < unat (rx_buffer_total_size s)"
      and "unat (rx_buffer_total_size s) < 2 ^ 31"
  shows "fst (serial_available s) =
           int ((unat (rx_buffer_head s) + unat (rx_buffer_total_size s) - unat (rx_buffer_tail s))
                  mod unat (rx_buffer_total_size s))"
proof -
  let ?h = "ucast (rx_buffer_head s) :: 32 word" and ?t = "ucast (rx_buffer_tail s) :: 32 word"
  have h: "unat ?h < unat (rx_buffer_total_size s)" and t: "unat ?t < unat (rx_buffer_total_size s)"
    using assms by (simp_all add: unat_ucast_8_32)
  have e: "fst (serial_available s) = sint (rx_avail s ?h ?t)"
    by (simp add: serial_available_def rx_avail_def Let_def)
  have u: "unat (rx_avail s ?h ?t) =
             (unat ?h + unat (rx_buffer_total_size s) - unat ?t) mod unat (rx_buffer_total_size s)"
    using h t by (rule rx_avail_unat)
  have "unat (rx_avail s ?h ?t) < unat (rx_buffer_total_size s)"
    unfolding u using h by (intro mod_less_divisor) simp
  then have "unat (rx_avail s ?h ?t) < 2 ^ 31" using assms(3) by simp
  then have "sint (rx_avail s ?h ?t) = int (unat (rx_avail s ?h ?t))" by (rule sint_small)
  then show ?thesis unfolding e u by (simp add: unat_ucast_8_32)
qed

lemma serial_write_buffer_free_value:
  assumes "unat (tx_buffer_head s) < unat (tx_buffer_total_size s)"
      and "unat (tx_buffer_tail s) < unat (tx_buffer_total_size s)"
      and "unat (tx_buffer_total_size s) < 2 ^ 31"
  shows "fst (serial_write_buffer_free s) =
           int (unat (tx_buffer_total_size s) - 1 -
                (unat (tx_buffer_head s) + unat (tx_buffer_total_size s) - unat (tx_buffer_tail s))
                  mod unat (tx_buffer_total_size s))"
proof -
  let ?h = "ucast (tx_buffer_head s) :: 32 word" and ?t = "ucast (tx_buffer_tail s) :: 32 word"
  let ?T = "tx_buffer_total_size s"
  let ?f = "if ?t \<le> ?h then ?T - 1 - ?h + ?t else ?t - ?h - 1"
  have h: "unat ?h < unat ?T" and t: "unat ?t < unat ?T"
    using assms by (simp_all add: unat_ucast_8_32)
  have e: "fst (serial_write_buffer_free s) = sint ?f"
    by (simp add: serial_write_buffer_free_def Let_def)
  have u: "unat ?f = unat ?T - 1 - (unat ?h + unat ?T - unat ?t) mod unat ?T"
    using h t by (simp add: free_ge free_lt)
  have "unat ?f < 2 ^ 31" unfolding u using assms(3) by linarith
  then have "sint ?f = int (unat ?f)" by (rule sint_small)
  then show ?thesis unfolding e u by (simp add: unat_ucast_8_32)
qed

subsection \<open>Ring accesses under the invariant\<close>

lemma word64_less: "(i < (64 :: 32 word)) = (unat i < 64)"
  by (simp add: word_less_nat_alt)

lemma unat_minus_64: "\<not> unat (i :: 32 word) < 64 \<Longrightarrow> unat (i - 64) = unat i - 64"
  by (simp add: unat_sub_if_size)

lemma ring_load_ok:
  assumes "length buf = 64" "storage_covers cap storage" "unat i < unat cap"
  shows "ring_load 64 buf storage i = Some (unit_at buf storage (unat i))"
  using assms
  by (auto simp: ring_load_def unit_at_def storage_covers_def word64_less unat_minus_64
      split: option.splits)

lemma ring_store_ok:
  assumes "length buf = 64" "storage_covers cap storage" "unat i < unat cap"
  shows "\<exists>buf' storage'. ring_store 64 buf storage i v = Some (buf', storage')
           \<and> length buf' = 64 \<and> storage_covers cap storage'
           \<and> (\<forall>j. unit_at buf' storage' j = (if j = unat i then v else unit_at buf storage j))"
  using assms
  by (auto simp: ring_store_def unit_at_def storage_covers_def word64_less unat_minus_64
      split: option.splits)


lemma advance_lt:
  assumes "unat i < unat cap"
  shows "unat (advance cap i) < unat cap"
proof -
  have "unat i < 2 ^ 32 - 1"
    using assms unsigned_less [of cap, where ?'a = nat] by simp
  then show ?thesis using assms by (simp add: unat_advance)
qed

lemma advance_mod:
  assumes "unat i < unat cap"
  shows "unat (advance cap i) = (unat i + 1) mod unat cap"
proof -
  have "unat i < 2 ^ 32 - 1"
    using assms unsigned_less [of cap, where ?'a = nat] by simp
  then have "unat (advance cap i) = (if unat cap \<le> unat i + 1 then 0 else unat i + 1)"
    by (rule unat_advance)
  moreover have "unat cap \<le> unat i + 1 \<Longrightarrow> unat i + 1 = unat cap" using assms by linarith
  ultimately show ?thesis by (cases "unat cap \<le> unat i + 1") simp_all
qed

lemma rx_load_ok:
  "rx_ok s \<Longrightarrow> unat i < unat (rx_buffer_total_size s) \<Longrightarrow>
   rx_load s i = Some (unit_at (rx_buffer s) (rx_buffer_storage s) (unat i))"
  unfolding rx_load_def SERIAL1_RX_BUFFER_SIZE_def
  by (rule ring_load_ok [where cap = "rx_buffer_total_size s"]) (simp_all add: rx_ok_def)

lemma tx_load_ok:
  "tx_ok s \<Longrightarrow> unat i < unat (tx_buffer_total_size s) \<Longrightarrow>
   tx_load s i = Some (unit_at (tx_buffer s) (tx_buffer_storage s) (unat i))"
  unfolding tx_load_def SERIAL1_TX_BUFFER_SIZE_def
  by (rule ring_load_ok [where cap = "tx_buffer_total_size s"]) (simp_all add: tx_ok_def)

lemma serial_getchar_empty:
  "rx_buffer_head s = rx_buffer_tail s \<Longrightarrow> serial_getchar s = Some (- 1, s)"
  by (simp add: serial_getchar_def)

lemma rx_store_ok:
  assumes "length (rx_buffer s) = 64"
      and "storage_covers (rx_buffer_total_size s) (rx_buffer_storage s)"
      and "unat i < unat (rx_buffer_total_size s)"
  shows "\<exists>buf' st'. rx_store s i v = Some (s\<lparr>rx_buffer := buf', rx_buffer_storage := st'\<rparr>)
           \<and> length buf' = 64 \<and> storage_covers (rx_buffer_total_size s) st'
           \<and> (\<forall>j. unit_at buf' st' j =
                 (if j = unat i then v else unit_at (rx_buffer s) (rx_buffer_storage s) j))"
proof -
  obtain buf' st' where r: "ring_store 64 (rx_buffer s) (rx_buffer_storage s) i v = Some (buf', st')"
    and l: "length buf' = 64" and c: "storage_covers (rx_buffer_total_size s) st'"
    and u: "\<forall>j. unit_at buf' st' j =
                 (if j = unat i then v else unit_at (rx_buffer s) (rx_buffer_storage s) j)"
    using ring_store_ok [OF assms, of v] by blast
  have "rx_store s i v = Some (s\<lparr>rx_buffer := buf', rx_buffer_storage := st'\<rparr>)"
    using r by (simp add: rx_store_def SERIAL1_RX_BUFFER_SIZE_def)
  then show ?thesis using l c u by blast
qed

lemma tx_store_ok:
  assumes "length (tx_buffer s) = 64"
      and "storage_covers (tx_buffer_total_size s) (tx_buffer_storage s)"
      and "unat i < unat (tx_buffer_total_size s)"
  shows "\<exists>buf' st'. tx_store s i v = Some (s\<lparr>tx_buffer := buf', tx_buffer_storage := st'\<rparr>)
           \<and> length buf' = 64 \<and> storage_covers (tx_buffer_total_size s) st'
           \<and> (\<forall>j. unit_at buf' st' j =
                 (if j = unat i then v else unit_at (tx_buffer s) (tx_buffer_storage s) j))"
proof -
  obtain buf' st' where r: "ring_store 64 (tx_buffer s) (tx_buffer_storage s) i v = Some (buf', st')"
    and l: "length buf' = 64" and c: "storage_covers (tx_buffer_total_size s) st'"
    and u: "\<forall>j. unit_at buf' st' j =
                 (if j = unat i then v else unit_at (tx_buffer s) (tx_buffer_storage s) j)"
    using ring_store_ok [OF assms, of v] by blast
  have "tx_store s i v = Some (s\<lparr>tx_buffer := buf', tx_buffer_storage := st'\<rparr>)"
    using r by (simp add: tx_store_def SERIAL1_TX_BUFFER_SIZE_def)
  then show ?thesis using l c u by blast
qed

lemma rx_drain_ok:
  assumes "length (rx_buffer s) = 64"
      and "storage_covers (rx_buffer_total_size s) (rx_buffer_storage s)"
      and "unat head < unat (rx_buffer_total_size s)"
  shows "\<exists>head' buf' st'.
           rx_drain r tail k i head s = Some (head', s\<lparr>rx_buffer := buf', rx_buffer_storage := st'\<rparr>)
           \<and> length buf' = 64 \<and> storage_covers (rx_buffer_total_size s) st'
           \<and> unat head' < unat (rx_buffer_total_size s)"
  using assms
proof (induction k arbitrary: i head s)
  case 0
  have "s = s\<lparr>rx_buffer := rx_buffer s, rx_buffer_storage := rx_buffer_storage s\<rparr>" by simp
  then show ?case using 0 by (metis rx_drain.simps(1))
next
  case (Suc k)
  let ?nh = "advance (rx_buffer_total_size s) head"
  have nh: "unat ?nh < unat (rx_buffer_total_size s)" using Suc.prems(3) by (rule advance_lt)
  show ?case
  proof (cases "?nh = tail")
    case True
    then have "rx_drain r tail (Suc k) i head s = rx_drain r tail k (Suc i) head s" by simp
    then show ?thesis using Suc.IH [OF Suc.prems] by simp
  next
    case False
    obtain buf' st' where st: "rx_store s ?nh (D_rx r i) = Some (s\<lparr>rx_buffer := buf', rx_buffer_storage := st'\<rparr>)"
      and l: "length buf' = 64" and c: "storage_covers (rx_buffer_total_size s) st'"
      using rx_store_ok [OF Suc.prems(1,2) nh] by blast
    let ?s1 = "s\<lparr>rx_buffer := buf', rx_buffer_storage := st'\<rparr>"
    have e: "rx_drain r tail (Suc k) i head s = rx_drain r tail k (Suc i) ?nh ?s1"
      using False st by simp
    have "\<exists>head' buf'' st''.
           rx_drain r tail k (Suc i) ?nh ?s1 = Some (head', ?s1\<lparr>rx_buffer := buf'', rx_buffer_storage := st''\<rparr>)
           \<and> length buf'' = 64 \<and> storage_covers (rx_buffer_total_size ?s1) st''
           \<and> unat head' < unat (rx_buffer_total_size ?s1)"
      by (rule Suc.IH) (use l c nh in simp_all)
    then show ?thesis unfolding e by simp
  qed
qed


lemma occ_step:
  fixes h t T :: nat
  assumes "h < T" "t < T" "t \<noteq> h"
  shows "(h + T - (t + 1) mod T) mod T < (h + T - t) mod T"
proof (cases "t + 1 < T")
  case True
  then have m: "(t + 1) mod T = t + 1" by simp
  show ?thesis
  proof (cases "t < h")
    case True
    then have "(h + T - t) mod T = h - t" using assms by (simp add: occ_nat_ge)
    moreover have "(h + T - (t + 1)) mod T = h - (t + 1)"
      using True assms by (intro occ_nat_ge) simp_all
    ultimately show ?thesis unfolding m using True by simp
  next
    case False
    then have lt: "h < t" using assms(3) by simp
    then have "(h + T - t) mod T = T - (t - h)" using assms by (simp add: occ_nat_lt)
    moreover have "(h + T - (t + 1)) mod T = T - (t + 1 - h)"
      using lt \<open>t + 1 < T\<close> by (intro occ_nat_lt) simp_all
    ultimately show ?thesis unfolding m using lt assms by simp
  qed
next
  case False
  then have tT: "t + 1 = T" using assms(2) by simp
  then have m: "(t + 1) mod T = 0" by simp
  have hlt: "h + 1 < T" using assms tT by simp
  have "(h + T - t) mod T = T - (t - h)" using assms hlt tT by (intro occ_nat_lt) simp_all
  moreover have "T - (t - h) = h + 1" using tT hlt by linarith
  ultimately have "(h + T - t) mod T = h + 1" by simp
  moreover have "(h + T - 0) mod T = h" using assms(1) by simp
  ultimately show ?thesis unfolding m by simp
qed

lemma tx_fill_ok:
  assumes "length (tx_buffer s) = 64"
      and "storage_covers (tx_buffer_total_size s) (tx_buffer_storage s)"
      and "unat head < unat (tx_buffer_total_size s)"
      and "unat tail < unat (tx_buffer_total_size s)"
  shows "\<exists>tail' xs. tx_fill r head k tail s = Some (tail', s\<lparr>UART0_D := UART0_D s @ xs\<rparr>)
           \<and> unat tail' < unat (tx_buffer_total_size s)"
  using assms
proof (induction "(unat head + unat (tx_buffer_total_size s) - unat tail) mod unat (tx_buffer_total_size s)"
       arbitrary: k tail s rule: less_induct)
  case less
  let ?T = "tx_buffer_total_size s"
  show ?case
  proof (cases "tail = head")
    case True
    have "tx_fill r head k tail s = Some (tail, s)"
      by (subst tx_fill.simps) (simp add: True)
    moreover have "s = s\<lparr>UART0_D := UART0_D s @ []\<rparr>" by simp
    ultimately show ?thesis using less.prems(4) by metis
  next
    case False
    let ?t = "advance ?T tail"
    have t_lt: "unat ?t < unat ?T" using less.prems(4) by (rule advance_lt)
    have t_mod: "unat ?t = (unat tail + 1) mod unat ?T" using less.prems(4) by (rule advance_mod)
    have ne: "unat tail \<noteq> unat head" using False by (simp add: word_eq_iff_unsigned [where ?'a = nat])
    have ld: "tx_load s ?t = Some (unit_at (tx_buffer s) (tx_buffer_storage s) (unat ?t))"
      unfolding tx_load_def SERIAL1_TX_BUFFER_SIZE_def
      by (rule ring_load_ok [OF less.prems(1,2) t_lt])
    let ?n = "unit_at (tx_buffer s) (tx_buffer_storage s) (unat ?t)"
    let ?s = "s\<lparr>UART0_D := UART0_D s @ [?n]\<rparr>"
    show ?thesis
    proof (cases "TCFIFO r k < 8")
      case True
      have e: "tx_fill r head k tail s = tx_fill r head (Suc k) ?t ?s"
        by (subst tx_fill.simps) (simp add: False ld True Let_def)
      have dec: "(unat head + unat (tx_buffer_total_size ?s) - unat ?t) mod unat (tx_buffer_total_size ?s)
                   < (unat head + unat ?T - unat tail) mod unat ?T"
        unfolding t_mod using occ_step [OF less.prems(3,4) ne] by simp
      have "\<exists>tail' xs. tx_fill r head (Suc k) ?t ?s = Some (tail', ?s\<lparr>UART0_D := UART0_D ?s @ xs\<rparr>)
              \<and> unat tail' < unat (tx_buffer_total_size ?s)"
        by (rule less.hyps [OF dec]) (use less.prems t_lt in simp_all)
      then obtain tail' xs where r: "tx_fill r head (Suc k) ?t ?s = Some (tail', ?s\<lparr>UART0_D := UART0_D ?s @ xs\<rparr>)"
        and b: "unat tail' < unat ?T" by auto
      have "?s\<lparr>UART0_D := UART0_D ?s @ xs\<rparr> = s\<lparr>UART0_D := UART0_D s @ (?n # xs)\<rparr>" by simp
      then show ?thesis using r b e by metis
    next
      case False
      have "tx_fill r head k tail s = Some (?t, ?s)"
        by (subst tx_fill.simps) (simp add: \<open>tail \<noteq> head\<close> ld False Let_def)
      then show ?thesis using t_lt by metis
    qed
  qed
qed

subsection \<open>The blocks of the interrupt handler\<close>

lemma rx_shape_refl:
  "s = s\<lparr>rx_buffer := rx_buffer s, rx_buffer_storage := rx_buffer_storage s,
         rx_buffer_head := rx_buffer_head s, pin_out := pin_out s, UART0_CFIFO := UART0_CFIFO s\<rparr>"
  by simp

lemma isr_rx_single_ok:
  assumes "rx_ok s" "\<not> HAS_KINETISK_UART0_FIFO b"
  shows "\<exists>buf' st' h' po cf.
           uart0_status_isr_rx b r s =
             Some (s\<lparr>rx_buffer := buf', rx_buffer_storage := st', rx_buffer_head := h',
                     pin_out := po, UART0_CFIFO := cf\<rparr>)
           \<and> length buf' = 64 \<and> storage_covers (rx_buffer_total_size s) st'"
proof -
  let ?h = "advance (rx_buffer_total_size s) (ucast (rx_buffer_head s))"
  have len: "length (rx_buffer s) = 64" and cov: "storage_covers (rx_buffer_total_size s) (rx_buffer_storage s)"
    using assms(1) by (simp_all add: rx_ok_def)
  have "unat (ucast (rx_buffer_head s) :: 32 word) < unat (rx_buffer_total_size s)"
    using assms(1) by (simp add: rx_ok_def unat_ucast_8_32)
  then have h: "unat ?h < unat (rx_buffer_total_size s)" by (rule advance_lt)
  show ?thesis
  proof (cases "S1_rx r AND UART_S1_RDRF \<noteq> 0 \<and> ?h \<noteq> ucast (rx_buffer_tail s)")
    case True
    obtain buf' st' where st: "rx_store s ?h (D_rx r 0) = Some (s\<lparr>rx_buffer := buf', rx_buffer_storage := st'\<rparr>)"
      and l: "length buf' = 64" and c: "storage_covers (rx_buffer_total_size s) st'"
      using rx_store_ok [OF len cov h] by blast
    have "uart0_status_isr_rx b r s =
            Some (s\<lparr>rx_buffer := buf', rx_buffer_storage := st', rx_buffer_head := ucast ?h,
                    pin_out := pin_out s, UART0_CFIFO := UART0_CFIFO s\<rparr>)"
      using True assms(2) st by (simp add: uart0_status_isr_rx_def Let_def)
    then show ?thesis using l c by blast
  next
    case False
    then have "uart0_status_isr_rx b r s = Some s"
      using assms(2) by (auto simp: uart0_status_isr_rx_def Let_def)
    then show ?thesis using len cov rx_shape_refl [of s] by metis
  qed
qed

lemma isr_rx_fifo_ok:
  assumes "rx_ok s" "HAS_KINETISK_UART0_FIFO b"
  shows "\<exists>buf' st' h' po cf.
           uart0_status_isr_rx b r s =
             Some (s\<lparr>rx_buffer := buf', rx_buffer_storage := st', rx_buffer_head := h',
                     pin_out := po, UART0_CFIFO := cf\<rparr>)
           \<and> length buf' = 64 \<and> storage_covers (rx_buffer_total_size s) st'"
proof -
  have len: "length (rx_buffer s) = 64" and cov: "storage_covers (rx_buffer_total_size s) (rx_buffer_storage s)"
    using assms(1) by (simp_all add: rx_ok_def)
  have h: "unat (ucast (rx_buffer_head s) :: 32 word) < unat (rx_buffer_total_size s)"
    using assms(1) by (simp add: rx_ok_def unat_ucast_8_32)
  consider (idle) "S1_rx r AND (UART_S1_RDRF OR UART_S1_IDLE) = 0"
    | (flush) "S1_rx r AND (UART_S1_RDRF OR UART_S1_IDLE) \<noteq> 0" "RCFIFO r = 0"
    | (drain) "S1_rx r AND (UART_S1_RDRF OR UART_S1_IDLE) \<noteq> 0" "RCFIFO r \<noteq> 0"
    by blast
  then show ?thesis
  proof cases
    case idle
    then have "uart0_status_isr_rx b r s = Some s"
      using assms(2) by (simp add: uart0_status_isr_rx_def)
    then show ?thesis using len cov rx_shape_refl [of s] by metis
  next
    case flush
    then have "uart0_status_isr_rx b r s =
        Some (s\<lparr>rx_buffer := rx_buffer s, rx_buffer_storage := rx_buffer_storage s,
         rx_buffer_head := rx_buffer_head s, pin_out := pin_out s, UART0_CFIFO := UART_CFIFO_RXFLUSH\<rparr>)"
      using assms(2) by (simp add: uart0_status_isr_rx_def)
    then show ?thesis using len cov by blast
  next
    case drain
    obtain head' buf' st' where d: "rx_drain r (ucast (rx_buffer_tail s)) (unat (RCFIFO r)) 0 (ucast (rx_buffer_head s)) s
          = Some (head', s\<lparr>rx_buffer := buf', rx_buffer_storage := st'\<rparr>)"
      and l: "length buf' = 64" and c: "storage_covers (rx_buffer_total_size s) st'"
      using rx_drain_ok [OF len cov h] by blast
    let ?s2 = "s\<lparr>rx_buffer := buf', rx_buffer_storage := st', rx_buffer_head := ucast head'\<rparr>"
    let ?po = "case rts_pin s of None \<Rightarrow> pin_out s
               | Some p \<Rightarrow> if rx_avail ?s2 head' (ucast (rx_buffer_tail s)) \<ge> rts_high_watermark s
                           then (pin_out s)(p := True) else pin_out s"
    have "uart0_status_isr_rx b r s =
        Some (s\<lparr>rx_buffer := buf', rx_buffer_storage := st',
         rx_buffer_head := ucast head', pin_out := ?po, UART0_CFIFO := UART0_CFIFO s\<rparr>)"
      using assms(2) drain d
      by (simp add: uart0_status_isr_rx_def Let_def rts_deassert_def rx_avail_def split: option.split)
    then show ?thesis using l c by blast
  qed
qed


lemma isr_rx_ok:
  assumes "rx_ok s"
  shows "\<exists>buf' st' h' po cf.
           uart0_status_isr_rx b r s =
             Some (s\<lparr>rx_buffer := buf', rx_buffer_storage := st', rx_buffer_head := h',
                     pin_out := po, UART0_CFIFO := cf\<rparr>)
           \<and> length buf' = 64 \<and> storage_covers (rx_buffer_total_size s) st'"
  using isr_rx_single_ok [OF assms] isr_rx_fifo_ok [OF assms]
  by (cases "HAS_KINETISK_UART0_FIFO b") blast+

lemma tx_shape_refl:
  "s = s\<lparr>UART0_D := UART0_D s, tx_buffer_tail := tx_buffer_tail s, UART0_C2 := UART0_C2 s\<rparr>"
  by simp

lemma isr_tx_ok:
  assumes "tx_ok s"
  shows "\<exists>d tl c2. uart0_status_isr_tx b r c s =
           Some (s\<lparr>UART0_D := d, tx_buffer_tail := tl, UART0_C2 := c2\<rparr>)"
proof -
  let ?T = "tx_buffer_total_size s"
  let ?h = "ucast (tx_buffer_head s) :: 32 word" and ?t = "ucast (tx_buffer_tail s) :: 32 word"
  have len: "length (tx_buffer s) = 64" and cov: "storage_covers ?T (tx_buffer_storage s)"
    and h: "unat ?h < unat ?T" and t: "unat ?t < unat ?T"
    using assms by (simp_all add: tx_ok_def unat_ucast_8_32)
  show ?thesis
  proof (cases "c AND UART_C2_TIE \<noteq> 0 \<and> S1_tx r AND UART_S1_TDRE \<noteq> 0")
    case False
    then have "uart0_status_isr_tx b r c s = Some s"
      by (auto simp: uart0_status_isr_tx_def)
    then show ?thesis using tx_shape_refl [of s] by metis
  next
    case ev: True
    show ?thesis
    proof (cases "HAS_KINETISK_UART0_FIFO b")
      case True
      obtain tail' xs where f: "tx_fill r ?h 0 ?t s = Some (tail', s\<lparr>UART0_D := UART0_D s @ xs\<rparr>)"
        using tx_fill_ok [OF len cov h t] by blast
      have "uart0_status_isr_tx b r c s =
              Some (s\<lparr>UART0_D := UART0_D s @ xs, tx_buffer_tail := ucast tail',
                      UART0_C2 := (if S1_tx_end r AND UART_S1_TDRE \<noteq> 0
                                   then C2_TX_COMPLETING b else UART0_C2 s)\<rparr>)"
        using ev True f by (simp add: uart0_status_isr_tx_def Let_def)
      then show ?thesis by blast
    next
      case False
      show ?thesis
      proof (cases "?h = ?t")
        case True
        then have "uart0_status_isr_tx b r c s =
              Some (s\<lparr>UART0_D := UART0_D s, tx_buffer_tail := tx_buffer_tail s,
                      UART0_C2 := C2_TX_COMPLETING b\<rparr>)"
          using ev False by (simp add: uart0_status_isr_tx_def Let_def)
        then show ?thesis by blast
      next
        case ne: False
        have "unat (advance ?T ?t) < unat ?T" using t by (rule advance_lt)
        then have "tx_load s (advance ?T ?t) =
                     Some (unit_at (tx_buffer s) (tx_buffer_storage s) (unat (advance ?T ?t)))"
          using assms by (simp add: tx_load_ok)
        then have "uart0_status_isr_tx b r c s =
              Some (s\<lparr>UART0_D := UART0_D s @ [unit_at (tx_buffer s) (tx_buffer_storage s) (unat (advance ?T ?t))],
                      tx_buffer_tail := ucast (advance ?T ?t), UART0_C2 := UART0_C2 s\<rparr>)"
          using ev False ne by (simp add: uart0_status_isr_tx_def Let_def)
        then show ?thesis by blast
      qed
    qed
  qed
qed

lemma isr_tc_shape:
  "\<exists>tr po c3 c2. uart0_status_isr_tc b r c s =
      s\<lparr>transmitting := tr, pin_out := po, UART0_C3 := c3, UART0_C2 := c2\<rparr>"
proof (cases "c AND UART_C2_TCIE \<noteq> 0 \<and> S1_tc r AND UART_S1_TC \<noteq> 0")
  case True
  have "uart0_status_isr_tc b r c s =
      s\<lparr>transmitting := 0,
        pin_out := (case transmit_pin s of None \<Rightarrow> pin_out s | Some p \<Rightarrow> (pin_out s)(p := False)),
        UART0_C3 := (if KINETISL b \<and> half_duplex_mode s \<noteq> 0
                     then UART0_C3 s AND NOT UART_C3_TXDIR else UART0_C3 s),
        UART0_C2 := C2_TX_INACTIVE b\<rparr>"
    using True
    by (auto simp: uart0_status_isr_tc_def Let_def transmit_deassert_def split: option.split)
  then show ?thesis by blast
next
  case False
  then have "uart0_status_isr_tc b r c s = s" by (auto simp: uart0_status_isr_tc_def)
  moreover have "s = s\<lparr>transmitting := transmitting s, pin_out := pin_out s,
                        UART0_C3 := UART0_C3 s, UART0_C2 := UART0_C2 s\<rparr>" by simp
  ultimately show ?thesis by metis
qed

lemma isr_after_rx:
  assumes "uart0_status_isr_rx b r s = Some s1" "tx_ok s1"
  shows "\<exists>d tl tr po c3 c2. uart0_status_isr b r s =
           Some (s1\<lparr>UART0_D := d, tx_buffer_tail := tl, transmitting := tr, pin_out := po,
                    UART0_C3 := c3, UART0_C2 := c2\<rparr>)"
proof -
  obtain d tl c2 where tx: "uart0_status_isr_tx b r (UART0_C2 s1) s1 =
           Some (s1\<lparr>UART0_D := d, tx_buffer_tail := tl, UART0_C2 := c2\<rparr>)"
    using isr_tx_ok [OF assms(2)] by blast
  let ?s2 = "s1\<lparr>UART0_D := d, tx_buffer_tail := tl, UART0_C2 := c2\<rparr>"
  obtain tr po c3 c2' where tc: "uart0_status_isr_tc b r (UART0_C2 s1) ?s2 =
      ?s2\<lparr>transmitting := tr, pin_out := po, UART0_C3 := c3, UART0_C2 := c2'\<rparr>"
    using isr_tc_shape by blast
  have "uart0_status_isr b r s =
          Some (s1\<lparr>UART0_D := d, tx_buffer_tail := tl, transmitting := tr, pin_out := po,
                    UART0_C3 := c3, UART0_C2 := c2'\<rparr>)"
    using assms(1) tx tc by (simp add: uart0_status_isr_def Let_def)
  then show ?thesis by blast
qed

lemma rx_drain_full:
  "advance (rx_buffer_total_size s) head = tail \<Longrightarrow> rx_drain r tail k i head s = Some (head, s)"
  by (induction k arbitrary: i) simp_all

lemma full_advance:
  assumes "unat (h :: 8 word) < unat T" "(unat h + 1) mod unat T = unat (t :: 8 word)"
  shows "advance T (ucast h) = ucast t"
proof -
  have "unat (ucast h :: 32 word) < unat T" using assms(1) by (simp add: unat_ucast_8_32)
  then have "unat (advance T (ucast h)) = (unat (ucast h :: 32 word) + 1) mod unat T"
    by (rule advance_mod)
  then have "unat (advance T (ucast h)) = unat (ucast t :: 32 word)"
    using assms(2) by (simp add: unat_ucast_8_32)
  then show ?thesis by (simp add: word_eq_iff_unsigned [where ?'a = nat])
qed

lemma isr_rx_full:
  assumes "unat (rx_buffer_head s) < unat (rx_buffer_total_size s)"
      and "(unat (rx_buffer_head s) + 1) mod unat (rx_buffer_total_size s) = unat (rx_buffer_tail s)"
  shows "\<exists>po cf. uart0_status_isr_rx b r s = Some (s\<lparr>pin_out := po, UART0_CFIFO := cf\<rparr>)"
proof -
  have adv: "advance (rx_buffer_total_size s) (ucast (rx_buffer_head s)) = ucast (rx_buffer_tail s)"
    using assms by (rule full_advance)
  let ?po = "case rts_pin s of None \<Rightarrow> pin_out s
               | Some p \<Rightarrow> if rx_avail s (ucast (rx_buffer_head s)) (ucast (rx_buffer_tail s)) \<ge> rts_high_watermark s
                           then (pin_out s)(p := True) else pin_out s"
  have "uart0_status_isr_rx b r s = Some s
      \<or> uart0_status_isr_rx b r s = Some (s\<lparr>pin_out := pin_out s, UART0_CFIFO := UART_CFIFO_RXFLUSH\<rparr>)
      \<or> uart0_status_isr_rx b r s = Some (s\<lparr>pin_out := ?po, UART0_CFIFO := UART0_CFIFO s\<rparr>)"
    using adv
    by (simp add: uart0_status_isr_rx_def Let_def rx_drain_full ucast_ucast_8 rts_deassert_def rx_avail_def
        split: option.split)
  moreover have "s = s\<lparr>pin_out := pin_out s, UART0_CFIFO := UART0_CFIFO s\<rparr>" by simp
  ultimately show ?thesis by metis
qed


lemma c2_active_bits:
  "C2_TX_ACTIVE b AND UART_C2_TIE \<noteq> 0" "C2_TX_ACTIVE b AND UART_C2_TCIE = 0"
  by (simp_all add: C2_TX_ACTIVE_def C2_ENABLE_def UART_C2_TIE_def UART_C2_TCIE_def
      UART_C2_TE_def UART_C2_RE_def UART_C2_RIE_def UART_C2_ILIE_def)

lemma c2_completing_bits:
  "C2_TX_COMPLETING b AND UART_C2_TIE = 0" "C2_TX_COMPLETING b AND UART_C2_TCIE \<noteq> 0"
  by (simp_all add: C2_TX_COMPLETING_def C2_ENABLE_def UART_C2_TIE_def UART_C2_TCIE_def
      UART_C2_TE_def UART_C2_RE_def UART_C2_RIE_def UART_C2_ILIE_def)

lemma isr_tx_single_pop:
  assumes "\<not> HAS_KINETISK_UART0_FIFO b" "tx_ok s"
      and "c AND UART_C2_TIE \<noteq> 0" "S1_tx r AND UART_S1_TDRE \<noteq> 0"
      and "tx_buffer_head s \<noteq> tx_buffer_tail s"
  shows "uart0_status_isr_tx b r c s =
           Some (s\<lparr>UART0_D := UART0_D s @
                      [unit_at (tx_buffer s) (tx_buffer_storage s)
                         (unat (advance (tx_buffer_total_size s) (ucast (tx_buffer_tail s))))],
                   tx_buffer_tail := ucast (advance (tx_buffer_total_size s) (ucast (tx_buffer_tail s)))\<rparr>)"
proof -
  let ?T = "tx_buffer_total_size s" and ?t = "ucast (tx_buffer_tail s) :: 32 word"
  have "unat ?t < unat ?T" using assms(2) by (simp add: tx_ok_def unat_ucast_8_32)
  then have "unat (advance ?T ?t) < unat ?T" by (rule advance_lt)
  then have "tx_load s (advance ?T ?t) =
               Some (unit_at (tx_buffer s) (tx_buffer_storage s) (unat (advance ?T ?t)))"
    using assms(2) by (simp add: tx_load_ok)
  then show ?thesis
    using assms(1,3,4,5) by (simp add: uart0_status_isr_tx_def Let_def ucast_8_32_inj)
qed

lemma isr_tx_single_empty:
  assumes "\<not> HAS_KINETISK_UART0_FIFO b"
      and "c AND UART_C2_TIE \<noteq> 0" "S1_tx r AND UART_S1_TDRE \<noteq> 0"
      and "tx_buffer_head s = tx_buffer_tail s"
  shows "uart0_status_isr_tx b r c s = Some (s\<lparr>UART0_C2 := C2_TX_COMPLETING b\<rparr>)"
  using assms by (simp add: uart0_status_isr_tx_def Let_def)

lemma isr_tc_idle:
  "c AND UART_C2_TCIE = 0 \<Longrightarrow> uart0_status_isr_tc b r c s = s"
  by (simp add: uart0_status_isr_tc_def)

lemma isr_tc_fires:
  assumes "c AND UART_C2_TCIE \<noteq> 0" "S1_tc r AND UART_S1_TC \<noteq> 0"
  shows "uart0_status_isr_tc b r c s =
      s\<lparr>transmitting := 0,
        pin_out := (case transmit_pin s of None \<Rightarrow> pin_out s | Some p \<Rightarrow> (pin_out s)(p := False)),
        UART0_C3 := (if KINETISL b \<and> half_duplex_mode s \<noteq> 0
                     then UART0_C3 s AND NOT UART_C3_TXDIR else UART0_C3 s),
        UART0_C2 := C2_TX_INACTIVE b\<rparr>"
  using assms
  by (auto simp: uart0_status_isr_tc_def Let_def transmit_deassert_def split: option.split)

subsection \<open>The units of a ring\<close>

lemma ring_units_snoc:
  "ring_units f T t (Suc n) = ring_units f T t n @ [f ((t + Suc n) mod T)]"
proof (induction n arbitrary: t)
  case 0
  then show ?case by simp
next
  case (Suc n)
  have "((t + 1) mod T + Suc n) mod T = ((t + 1) + Suc n) mod T" by (rule mod_add_left_eq)
  also have "(t + 1) + Suc n = t + Suc (Suc n)" by simp
  finally have e: "((t + 1) mod T + Suc n) mod T = (t + Suc (Suc n)) mod T" .
  have "ring_units f T t (Suc (Suc n)) = f ((t + 1) mod T) # ring_units f T ((t + 1) mod T) (Suc n)"
    by (rule ring_units.simps(2))
  also have "\<dots> = f ((t + 1) mod T) #
      (ring_units f T ((t + 1) mod T) n @ [f (((t + 1) mod T + Suc n) mod T)])"
    by (simp only: Suc [of "(t + 1) mod T"])
  also have "\<dots> = ring_units f T t (Suc n) @ [f ((t + Suc (Suc n)) mod T)]"
    unfolding e by simp
  finally show ?case .
qed

lemma ring_units_cong:
  "(\<And>k. 1 \<le> k \<Longrightarrow> k \<le> n \<Longrightarrow> g ((t + k) mod T) = f ((t + k) mod T)) \<Longrightarrow>
   ring_units g T t n = ring_units f T t n"
proof (induction n arbitrary: t)
  case 0
  then show ?case by simp
next
  case (Suc n)
  have a: "g ((t + 1) mod T) = f ((t + 1) mod T)" using Suc.prems [of 1] by simp
  have "ring_units g T ((t + 1) mod T) n = ring_units f T ((t + 1) mod T) n"
  proof (rule Suc.IH)
    fix k assume k: "1 \<le> k" "k \<le> n"
    have "((t + 1) mod T + k) mod T = ((t + 1) + k) mod T" by (rule mod_add_left_eq)
    also have "(t + 1) + k = t + Suc k" by simp
    finally have "((t + 1) mod T + k) mod T = (t + Suc k) mod T" .
    then show "g (((t + 1) mod T + k) mod T) = f (((t + 1) mod T + k) mod T)"
      using Suc.prems [of "Suc k"] k by simp
  qed
  then show ?case using a by simp
qed

lemma ring_head: 
  fixes h t T :: nat
  assumes "h < T" "t < T"
  shows "(t + (h + T - t) mod T) mod T = h"
proof -
  have "(t + (h + T - t) mod T) mod T = (t + (h + T - t)) mod T" by (simp add: mod_add_right_eq)
  also have "t + (h + T - t) = h + T" using assms by simp
  also have "(h + T) mod T = h" using assms by simp
  finally show ?thesis .
qed

lemma ring_slot_free:
  fixes t k n T :: nat
  assumes "1 \<le> k" "k \<le> n" "n + 1 < T"
  shows "(t + k) mod T \<noteq> (t + n + 1) mod T"
proof
  assume "(t + k) mod T = (t + n + 1) mod T"
  then have "(t + n + 1) mod T = (t + k) mod T" by simp
  moreover have "t + k \<le> t + n + 1" using assms by simp
  ultimately have "T dvd (t + n + 1) - (t + k)" by (simp add: mod_eq_dvd_iff_nat)
  moreover have "(t + n + 1) - (t + k) = n + 1 - k" by simp
  moreover have "0 < n + 1 - k" "n + 1 - k < T" using assms by simp_all
  ultimately show False using nat_dvd_not_less by metis
qed

lemma occ_push:
  fixes h t T :: nat
  assumes "h < T" "t < T" "(h + 1) mod T \<noteq> t"
  shows "((h + 1) mod T + T - t) mod T = (h + T - t) mod T + 1"
    and "(h + T - t) mod T + 1 < T"
proof -
  let ?n = "(h + T - t) mod T"
  have n: "?n < T" using assms(1) by simp
  have hd: "(t + ?n) mod T = h" using assms(1,2) by (rule ring_head)
  have ne: "?n + 1 \<noteq> T"
  proof
    assume e: "?n + 1 = T"
    have "(h + 1) mod T = ((t + ?n) mod T + 1) mod T" using hd by simp
    also have "\<dots> = ((t + ?n) + 1) mod T" by (rule mod_add_left_eq)
    also have "(t + ?n) + 1 = t + (?n + 1)" by simp
    also have "t + (?n + 1) = t + T" by (simp only: e)
    also have "(t + T) mod T = t" using assms(2) by simp
    finally show False using assms(3) by simp
  qed
  show lt: "?n + 1 < T" using n ne by simp
  have "((h + 1) mod T + T - t) mod T = ((h + 1) mod T + (T - t)) mod T" using assms(2) by simp
  also have "\<dots> = (h + 1 + (T - t)) mod T" by (rule mod_add_left_eq)
  also have "h + 1 + (T - t) = (h + T - t) + 1" using assms(2) by simp
  also have "((h + T - t) + 1) mod T = (?n + 1) mod T" by (rule mod_add_left_eq [symmetric])
  also have "\<dots> = ?n + 1" using lt by simp
  finally show "((h + 1) mod T + T - t) mod T = ?n + 1" .
qed

lemma occ_pop:
  fixes h t T :: nat
  assumes "h < T" "t < T" "t \<noteq> h"
  shows "(h + T - t) mod T = Suc ((h + T - (t + 1) mod T) mod T)"
proof (cases "t + 1 < T")
  case True
  then have m: "(t + 1) mod T = t + 1" by simp
  show ?thesis
  proof (cases "t < h")
    case True
    have "(h + T - t) mod T = ((h - t) + T) mod T" using True by simp
    also have "\<dots> = h - t" using assms(1) by simp
    finally have a: "(h + T - t) mod T = h - t" .
    have "(h + T - (t + 1)) mod T = ((h - (t + 1)) + T) mod T" using True by simp
    also have "\<dots> = h - (t + 1)" using assms(1) by simp
    finally show ?thesis unfolding m a using True by simp
  next
    case False
    then have lt: "h < t" using assms(3) by simp
    have a: "(h + T - t) mod T = h + T - t" using lt assms by simp
    have b: "(h + T - (t + 1)) mod T = h + T - (t + 1)" using lt assms True by simp
    show ?thesis unfolding m a b using lt assms(2) by simp
  qed
next
  case False
  then have tT: "t + 1 = T" using assms(2) by simp
  then have m: "(t + 1) mod T = 0" by simp
  have hlt: "h + 1 < T" using assms tT by simp
  have "h + T - t = h + 1" using tT by simp
  then have a: "(h + T - t) mod T = h + 1" using hlt by simp
  have b: "(h + T - 0) mod T = h" using assms(1) by simp
  show ?thesis unfolding m a b by simp
qed

lemma occ_full:
  fixes h t T :: nat
  assumes "h < T" "t < T" "(h + 1) mod T = t"
  shows "(h + T - t) mod T + 1 = T"
proof (cases "h + 1 < T")
  case True
  then have "t = h + 1" using assms(3) by simp
  then have "h + T - t = T - 1" using True by simp
  moreover have "(T - 1) mod T = T - 1" using assms(1) by simp
  ultimately show ?thesis using assms(1) by simp
next
  case False
  then have e: "h + 1 = T" using assms(1) by simp
  then have "t = 0" using assms(3) by simp
  then have "(h + T - t) mod T = h" using assms(1) by simp
  then show ?thesis using e by simp
qed

lemma ring_push:
  fixes h t T :: nat
  assumes "h < T" "t < T" "(h + T - t) mod T + 1 < T"
      and g: "\<And>j. g j = (if j = (h + 1) mod T then v else f j)"
  shows "ring_units g T t (((h + 1) mod T + T - t) mod T) = ring_units f T t ((h + T - t) mod T) @ [v]"
proof -
  let ?n = "(h + T - t) mod T"
  have ne: "(h + 1) mod T \<noteq> t"
  proof
    assume "(h + 1) mod T = t"
    then have "?n + 1 = T" using assms(1,2) by (intro occ_full)
    then show False using assms(3) by simp
  qed
  have occ: "((h + 1) mod T + T - t) mod T = Suc ?n"
    using occ_push(1) [OF assms(1,2) ne] by simp
  have hd: "(t + ?n) mod T = h" using assms(1,2) by (rule ring_head)
  have "(t + Suc ?n) mod T = ((t + ?n) + 1) mod T" by simp
  also have "\<dots> = ((t + ?n) mod T + 1) mod T" by (rule mod_add_left_eq [symmetric])
  also have "\<dots> = (h + 1) mod T" unfolding hd ..
  finally have last: "(t + Suc ?n) mod T = (h + 1) mod T" .
  have same: "ring_units g T t ?n = ring_units f T t ?n"
  proof (rule ring_units_cong)
    fix k assume k: "1 \<le> k" "k \<le> ?n"
    have "(t + k) mod T \<noteq> (t + ?n + 1) mod T" using k assms(3) by (rule ring_slot_free)
    then have "(t + k) mod T \<noteq> (h + 1) mod T" using last by simp
    then show "g ((t + k) mod T) = f ((t + k) mod T)" by (simp add: g)
  qed
  have "ring_units g T t (Suc ?n) = ring_units g T t ?n @ [g ((t + Suc ?n) mod T)]"
    by (rule ring_units_snoc)
  also have "\<dots> = ring_units f T t ?n @ [v]" unfolding same last by (simp add: g)
  finally show ?thesis unfolding occ .
qed

lemma ring_pop:
  fixes h t T :: nat
  assumes "h < T" "t < T" "t \<noteq> h"
  shows "ring_units f T t ((h + T - t) mod T) =
           f ((t + 1) mod T) # ring_units f T ((t + 1) mod T) ((h + T - (t + 1) mod T) mod T)"
  unfolding occ_pop [OF assms] by simp

lemma ring_empty:
  fixes h T :: nat
  assumes "h < T"
  shows "ring_units f T h ((h + T - h) mod T) = []"
  using assms by simp

text \<open>
  On an empty ring \<open>serial_getchar\<close> returns \<open>-1\<close> and changes nothing
  (\<open>serial_getchar_empty\<close>).  On a well-formed ring that is not empty it returns the unit
  at the advanced tail, stores that tail, and changes no other variable but the level of
  the RTS pin; when the total size is at most 256 the stored tail is the old tail
  advanced by one modulo the total size.
\<close>

lemma serial_getchar_pop:
  assumes "rx_ok s" "rx_buffer_head s \<noteq> rx_buffer_tail s"
  shows "serial_getchar s =
           Some (uint (unit_at (rx_buffer s) (rx_buffer_storage s)
                         (unat (advance (rx_buffer_total_size s) (ucast (rx_buffer_tail s))))),
                 s\<lparr>rx_buffer_tail := ucast (advance (rx_buffer_total_size s) (ucast (rx_buffer_tail s))),
                   pin_out :=
                     (case rts_pin s of
                        None \<Rightarrow> pin_out s
                      | Some p \<Rightarrow>
                          if rx_avail s (ucast (rx_buffer_head s))
                               (advance (rx_buffer_total_size s) (ucast (rx_buffer_tail s)))
                             \<le> rts_low_watermark s
                          then (pin_out s)(p := False) else pin_out s)\<rparr>)"
proof -
  let ?t = "advance (rx_buffer_total_size s) (ucast (rx_buffer_tail s))"
  have "unat (ucast (rx_buffer_tail s) :: 32 word) < unat (rx_buffer_total_size s)"
    using assms(1) by (simp add: rx_ok_def unat_ucast_8_32)
  then have "unat ?t < unat (rx_buffer_total_size s)" by (rule advance_lt)
  then have l: "rx_load s ?t = Some (unit_at (rx_buffer s) (rx_buffer_storage s) (unat ?t))"
    using assms(1) by (simp add: rx_load_ok)
  show ?thesis
    using assms(2) l
    by (simp add: serial_getchar_def Let_def ucast_8_32_inj rts_assert_def rx_avail_def
        split: option.split)
qed

lemma serial_getchar_pop_mod:
  assumes "rx_ok s" "rx_buffer_head s \<noteq> rx_buffer_tail s" "unat (rx_buffer_total_size s) \<le> 256"
  shows "\<exists>s'. serial_getchar s =
             Some (uint (unit_at (rx_buffer s) (rx_buffer_storage s) (unat (rx_buffer_tail s'))), s')
           \<and> unat (rx_buffer_tail s') = (unat (rx_buffer_tail s) + 1) mod unat (rx_buffer_total_size s)
           \<and> rx_buffer_head s' = rx_buffer_head s \<and> rx_buffer s' = rx_buffer s
           \<and> rx_buffer_storage s' = rx_buffer_storage s"
proof -
  let ?T = "rx_buffer_total_size s"
  let ?t = "advance ?T (ucast (rx_buffer_tail s))"
  have t: "unat (ucast (rx_buffer_tail s) :: 32 word) < unat ?T"
    using assms(1) by (simp add: rx_ok_def unat_ucast_8_32)
  have lt: "unat ?t < unat ?T" using t by (rule advance_lt)
  have md: "unat ?t = (unat (rx_buffer_tail s) + 1) mod unat ?T"
    using advance_mod [OF t] by (simp add: unat_ucast_8_32)
  have "unat ?t < 256" using lt assms(3) by simp
  then have u: "unat (ucast ?t :: 8 word) = unat ?t" by (rule unat_ucast_32_8)
  show ?thesis
    using serial_getchar_pop [OF assms(1,2)] u md by simp
qed

subsection \<open>The effect of each call on the queues\<close>

lemma putchar_room:
  assumes "enabled s" "tx_ok s"
      and "advance (tx_buffer_total_size s) (ucast (tx_buffer_head s)) \<noteq> ucast (tx_buffer_tail s)"
  shows "\<exists>buf' st' po c3.
           serial_putchar b e c s =
             Some (s\<lparr>pin_out := po, UART0_C3 := c3, tx_buffer := buf', tx_buffer_storage := st',
                     transmitting := 1,
                     tx_buffer_head := ucast (advance (tx_buffer_total_size s) (ucast (tx_buffer_head s))),
                     UART0_C2 := C2_TX_ACTIVE b\<rparr>)
           \<and> length buf' = 64 \<and> storage_covers (tx_buffer_total_size s) st'
           \<and> (\<forall>j. unit_at buf' st' j =
                 (if j = unat (advance (tx_buffer_total_size s) (ucast (tx_buffer_head s)))
                  then ucast c else unit_at (tx_buffer s) (tx_buffer_storage s) j))"
proof -
  let ?T = "tx_buffer_total_size s"
  let ?h = "advance ?T (ucast (tx_buffer_head s))"
  let ?po = "case transmit_pin s of None \<Rightarrow> pin_out s | Some p \<Rightarrow> (pin_out s)(p := True)"
  let ?c3 = "if KINETISL b \<and> half_duplex_mode s \<noteq> 0 then UART0_C3 s OR UART_C3_TXDIR else UART0_C3 s"
  let ?s2 = "s\<lparr>pin_out := ?po, UART0_C3 := ?c3\<rparr>"
  have len: "length (tx_buffer ?s2) = 64" and cov: "storage_covers (tx_buffer_total_size ?s2) (tx_buffer_storage ?s2)"
    using assms(2) by (simp_all add: tx_ok_def)
  have "unat (ucast (tx_buffer_head s) :: 32 word) < unat ?T"
    using assms(2) by (simp add: tx_ok_def unat_ucast_8_32)
  then have h: "unat ?h < unat (tx_buffer_total_size ?s2)" using advance_lt by simp
  obtain buf' st' where st: "tx_store ?s2 ?h (ucast c) = Some (?s2\<lparr>tx_buffer := buf', tx_buffer_storage := st'\<rparr>)"
    and l: "length buf' = 64" and cv: "storage_covers (tx_buffer_total_size ?s2) st'"
    and u: "\<forall>j. unit_at buf' st' j =
                 (if j = unat ?h then ucast c else unit_at (tx_buffer ?s2) (tx_buffer_storage ?s2) j)"
    using tx_store_ok [OF len cov h, of "ucast c"] by blast
  have w: "putchar_wait e ?h ?s2 = Some ?s2"
    using assms(3) by (subst putchar_wait.simps) simp
  have s2: "(let s1 = (case transmit_pin s of None \<Rightarrow> s | Some p \<Rightarrow> transmit_assert p s)
             in (if KINETISL b \<and> half_duplex_mode s1 \<noteq> 0
                  then s1\<lparr>UART0_C3 := UART0_C3 s1 OR UART_C3_TXDIR\<rparr> else s1)) = ?s2"
    by (auto simp: transmit_assert_def Let_def split: option.split)
  have "serial_putchar b e c s =
          Some (?s2\<lparr>tx_buffer := buf', tx_buffer_storage := st', transmitting := 1,
                  tx_buffer_head := ucast ?h, UART0_C2 := C2_TX_ACTIVE b\<rparr>)"
    using assms(1) w st s2
    by (simp add: serial_putchar_def enabled_def Let_def transmit_assert_def split: option.split)
  then have eq: "serial_putchar b e c s =
          Some (s\<lparr>pin_out := ?po, UART0_C3 := ?c3, tx_buffer := buf', tx_buffer_storage := st',
                  transmitting := 1, tx_buffer_head := ucast ?h, UART0_C2 := C2_TX_ACTIVE b\<rparr>)"
    by simp
  have cv': "storage_covers ?T st'" using cv by simp
  have u': "\<forall>j. unit_at buf' st' j =
                 (if j = unat ?h then ucast c else unit_at (tx_buffer s) (tx_buffer_storage s) j)"
    using u by simp
  show ?thesis using eq l cv' u' by blast
qed


lemma advance_ucast_unat:
  assumes "unat (h :: 8 word) < unat T"
  shows "unat (advance T (ucast h)) = (unat h + 1) mod unat T"
proof -
  have "unat (ucast h :: 32 word) < unat T" using assms by (simp add: unat_ucast_8_32)
  then have "unat (advance T (ucast h)) = (unat (ucast h :: 32 word) + 1) mod unat T"
    by (rule advance_mod)
  then show ?thesis by (simp add: unat_ucast_8_32)
qed

lemma advance_ucast_stored:
  assumes "unat (h :: 8 word) < unat T" "unat T \<le> 256"
  shows "unat (ucast (advance T (ucast h)) :: 8 word) = (unat h + 1) mod unat T"
proof -
  have "(unat h + 1) mod unat T < unat T" using assms(1) by simp
  then have "(unat h + 1) mod unat T < 256" using assms(2) by linarith
  then have "unat (advance T (ucast h)) < 256"
    by (simp only: advance_ucast_unat [OF assms(1)])
  then have "unat (ucast (advance T (ucast h)) :: 8 word) = unat (advance T (ucast h))"
    by (rule unat_ucast_32_8)
  then show ?thesis using advance_ucast_unat [OF assms(1)] by simp
qed

lemma advance_ucast_eq:
  assumes "unat (h :: 8 word) < unat T"
  shows "(advance T (ucast h) = ucast (t :: 8 word)) = ((unat h + 1) mod unat T = unat t)"
  using advance_ucast_unat [OF assms]
  by (simp add: word_eq_iff_unsigned [where ?'a = nat] unat_ucast_8_32)

lemma room_not_full:
  fixes h t T :: nat
  assumes "h < T" "t < T" "(h + T - t) mod T + 1 < T"
  shows "(h + 1) mod T \<noteq> t"
proof
  assume "(h + 1) mod T = t"
  then have "(h + T - t) mod T + 1 = T" using assms(1,2) by (intro occ_full)
  then show False using assms(3) by simp
qed

lemma putchar_push:
  assumes "driver_ok s" "tx_occupied s + 1 < unat (tx_buffer_total_size s)"
  shows "\<exists>s'. serial_putchar b e c s = Some s' \<and> driver_ok s'
           \<and> UART0_D s' = UART0_D s
           \<and> tx_pending s' = tx_pending s @ [ucast c]
           \<and> rx_ring s' = rx_ring s
           \<and> tx_buffer_total_size s' = tx_buffer_total_size s"
proof -
  let ?T = "tx_buffer_total_size s"
  let ?h = "unat (tx_buffer_head s)" and ?t = "unat (tx_buffer_tail s)"
  let ?f = "unit_at (tx_buffer s) (tx_buffer_storage s)"
  have en: "enabled s" and tx: "tx_ok s" and rx: "rx_ok s" and nw: "narrow s"
    using assms(1) by (simp_all add: driver_ok_def)
  have h: "?h < unat ?T" and t: "?t < unat ?T" using tx by (simp_all add: tx_ok_def)
  have T: "unat ?T \<le> 256" using nw by (simp add: narrow_def)
  have occ: "(?h + unat ?T - ?t) mod unat ?T + 1 < unat ?T"
    using assms(2) by (simp add: tx_occupied_def)
  have ne: "(?h + 1) mod unat ?T \<noteq> ?t" using h t occ by (rule room_not_full)
  then have room: "advance ?T (ucast (tx_buffer_head s)) \<noteq> ucast (tx_buffer_tail s)"
    by (simp add: advance_ucast_eq [OF h])
  obtain buf' st' po c3 where
    put: "serial_putchar b e c s =
             Some (s\<lparr>pin_out := po, UART0_C3 := c3, tx_buffer := buf', tx_buffer_storage := st',
                     transmitting := 1,
                     tx_buffer_head := ucast (advance ?T (ucast (tx_buffer_head s))),
                     UART0_C2 := C2_TX_ACTIVE b\<rparr>)"
    and l: "length buf' = 64" and cv: "storage_covers ?T st'"
    and u: "\<forall>j. unit_at buf' st' j =
                 (if j = unat (advance ?T (ucast (tx_buffer_head s)))
                  then ucast c else ?f j)"
    using putchar_room [OF en tx room, of b e c] by blast
  let ?s' = "s\<lparr>pin_out := po, UART0_C3 := c3, tx_buffer := buf', tx_buffer_storage := st',
                     transmitting := 1,
                     tx_buffer_head := ucast (advance ?T (ucast (tx_buffer_head s))),
                     UART0_C2 := C2_TX_ACTIVE b\<rparr>"
  have hs: "unat (tx_buffer_head ?s') = (?h + 1) mod unat ?T"
    using advance_ucast_stored [OF h T] by simp
  have g: "\<And>j. unit_at buf' st' j = (if j = (?h + 1) mod unat ?T then ucast c else ?f j)"
    using u advance_ucast_unat [OF h] by simp
  have ok: "driver_ok ?s'"
    using en tx rx nw l cv hs h
    by (simp add: driver_ok_def enabled_def tx_ok_def rx_ok_def narrow_def)
  have "tx_pending ?s' =
          ring_units (unit_at buf' st') (unat ?T) ?t (((?h + 1) mod unat ?T + unat ?T - ?t) mod unat ?T)"
    using hs by (simp add: tx_pending_def tx_occupied_def)
  also have "\<dots> = ring_units ?f (unat ?T) ?t ((?h + unat ?T - ?t) mod unat ?T) @ [ucast c]"
    using h t occ g by (rule ring_push)
  also have "\<dots> = tx_pending s @ [ucast c]" by (simp add: tx_pending_def tx_occupied_def)
  finally have pend: "tx_pending ?s' = tx_pending s @ [ucast c]" .
  have "UART0_D ?s' = UART0_D s" "rx_ring ?s' = rx_ring s"
    "tx_buffer_total_size ?s' = tx_buffer_total_size s" by (simp_all add: rx_ring_def)
  then show ?thesis using put ok pend by metis
qed

lemma isr_rx_single_push:
  assumes "\<not> HAS_KINETISK_UART0_FIFO b" "driver_ok s"
      and "S1_rx r AND UART_S1_RDRF \<noteq> 0"
      and "rx_occupied s + 1 < unat (rx_buffer_total_size s)"
  shows "\<exists>buf' st' h'. uart0_status_isr_rx b r s =
             Some (s\<lparr>rx_buffer := buf', rx_buffer_storage := st', rx_buffer_head := h'\<rparr>)
           \<and> driver_ok (s\<lparr>rx_buffer := buf', rx_buffer_storage := st', rx_buffer_head := h'\<rparr>)
           \<and> rx_pending (s\<lparr>rx_buffer := buf', rx_buffer_storage := st', rx_buffer_head := h'\<rparr>)
               = rx_pending s @ [D_rx r 0]"
proof -
  let ?T = "rx_buffer_total_size s"
  let ?h = "unat (rx_buffer_head s)" and ?t = "unat (rx_buffer_tail s)"
  let ?f = "unit_at (rx_buffer s) (rx_buffer_storage s)"
  let ?nh = "advance ?T (ucast (rx_buffer_head s))"
  have en: "enabled s" and tx: "tx_ok s" and rx: "rx_ok s" and nw: "narrow s"
    using assms(2) by (simp_all add: driver_ok_def)
  have len: "length (rx_buffer s) = 64" and cov: "storage_covers ?T (rx_buffer_storage s)"
    and h: "?h < unat ?T" and t: "?t < unat ?T" using rx by (simp_all add: rx_ok_def)
  have T: "unat ?T \<le> 256" using nw by (simp add: narrow_def)
  have occ: "(?h + unat ?T - ?t) mod unat ?T + 1 < unat ?T"
    using assms(4) by (simp add: rx_occupied_def)
  have ne: "(?h + 1) mod unat ?T \<noteq> ?t" using h t occ by (rule room_not_full)
  then have room: "?nh \<noteq> ucast (rx_buffer_tail s)"
    by (simp add: advance_ucast_eq [OF h])
  have nh: "unat ?nh < unat ?T" using advance_ucast_unat [OF h] h by simp
  obtain buf' st' where st: "rx_store s ?nh (D_rx r 0) = Some (s\<lparr>rx_buffer := buf', rx_buffer_storage := st'\<rparr>)"
    and l: "length buf' = 64" and cv: "storage_covers ?T st'"
    and u: "\<forall>j. unit_at buf' st' j = (if j = unat ?nh then D_rx r 0 else ?f j)"
    using rx_store_ok [OF len cov nh, of "D_rx r 0"] by blast
  let ?s' = "s\<lparr>rx_buffer := buf', rx_buffer_storage := st', rx_buffer_head := ucast ?nh\<rparr>"
  have run: "uart0_status_isr_rx b r s = Some ?s'"
    using assms(1,3) room st by (simp add: uart0_status_isr_rx_def Let_def)
  have hs: "unat (rx_buffer_head ?s') = (?h + 1) mod unat ?T"
    using advance_ucast_stored [OF h T] by simp
  have g: "\<And>j. unit_at buf' st' j = (if j = (?h + 1) mod unat ?T then D_rx r 0 else ?f j)"
    using u advance_ucast_unat [OF h] by simp
  have ok: "driver_ok ?s'"
    using en tx rx nw l cv hs h
    by (simp add: driver_ok_def enabled_def tx_ok_def rx_ok_def narrow_def)
  have "rx_pending ?s' =
          ring_units (unit_at buf' st') (unat ?T) ?t (((?h + 1) mod unat ?T + unat ?T - ?t) mod unat ?T)"
    using hs by (simp add: rx_pending_def rx_occupied_def)
  also have "\<dots> = ring_units ?f (unat ?T) ?t ((?h + unat ?T - ?t) mod unat ?T) @ [D_rx r 0]"
    using h t occ g by (rule ring_push)
  also have "\<dots> = rx_pending s @ [D_rx r 0]" by (simp add: rx_pending_def rx_occupied_def)
  finally have pend: "rx_pending ?s' = rx_pending s @ [D_rx r 0]" .
  show ?thesis using run ok pend by blast
qed

lemma isr_rx_single_idle:
  "\<not> HAS_KINETISK_UART0_FIFO b \<Longrightarrow> S1_rx r AND UART_S1_RDRF = 0 \<Longrightarrow>
   uart0_status_isr_rx b r s = Some s"
  by (simp add: uart0_status_isr_rx_def)

lemma isr_tx_single_law:
  assumes "\<not> HAS_KINETISK_UART0_FIFO b" "driver_ok s"
  shows "\<exists>d tl c2. uart0_status_isr_tx b r c s =
             Some (s\<lparr>UART0_D := d, tx_buffer_tail := tl, UART0_C2 := c2\<rparr>)
           \<and> driver_ok (s\<lparr>UART0_D := d, tx_buffer_tail := tl, UART0_C2 := c2\<rparr>)
           \<and> d @ tx_pending (s\<lparr>UART0_D := d, tx_buffer_tail := tl, UART0_C2 := c2\<rparr>)
               = UART0_D s @ tx_pending s"
proof -
  let ?T = "tx_buffer_total_size s"
  let ?h = "unat (tx_buffer_head s)" and ?t = "unat (tx_buffer_tail s)"
  let ?f = "unit_at (tx_buffer s) (tx_buffer_storage s)"
  have en: "enabled s" and tx: "tx_ok s" and rx: "rx_ok s" and nw: "narrow s"
    using assms(2) by (simp_all add: driver_ok_def)
  have h: "?h < unat ?T" and t: "?t < unat ?T" using tx by (simp_all add: tx_ok_def)
  have T: "unat ?T \<le> 256" using nw by (simp add: narrow_def)
  have same: "s = s\<lparr>UART0_D := UART0_D s, tx_buffer_tail := tx_buffer_tail s, UART0_C2 := UART0_C2 s\<rparr>"
    by simp
  consider (none) "\<not> (c AND UART_C2_TIE \<noteq> 0 \<and> S1_tx r AND UART_S1_TDRE \<noteq> 0)"
    | (empty) "c AND UART_C2_TIE \<noteq> 0" "S1_tx r AND UART_S1_TDRE \<noteq> 0" "tx_buffer_head s = tx_buffer_tail s"
    | (pop) "c AND UART_C2_TIE \<noteq> 0" "S1_tx r AND UART_S1_TDRE \<noteq> 0" "tx_buffer_head s \<noteq> tx_buffer_tail s"
    by blast
  then show ?thesis
  proof cases
    case none
    then have "uart0_status_isr_tx b r c s = Some s" by (auto simp: uart0_status_isr_tx_def)
    then show ?thesis using assms(2) same by metis
  next
    case empty
    let ?s' = "s\<lparr>UART0_D := UART0_D s, tx_buffer_tail := tx_buffer_tail s, UART0_C2 := C2_TX_COMPLETING b\<rparr>"
    have "uart0_status_isr_tx b r c s = Some ?s'"
      using isr_tx_single_empty [OF assms(1) empty] by simp
    moreover have "driver_ok ?s'"
      using assms(2) by (simp add: driver_ok_def enabled_def tx_ok_def rx_ok_def narrow_def)
    moreover have "UART0_D s @ tx_pending ?s' = UART0_D s @ tx_pending s"
      by (simp add: tx_pending_def tx_occupied_def)
    ultimately show ?thesis by blast
  next
    case pop
    let ?nt = "advance ?T (ucast (tx_buffer_tail s))"
    let ?s' = "s\<lparr>UART0_D := UART0_D s @ [?f (unat ?nt)], tx_buffer_tail := ucast ?nt, UART0_C2 := UART0_C2 s\<rparr>"
    have run: "uart0_status_isr_tx b r c s = Some ?s'"
      using isr_tx_single_pop [OF assms(1) tx pop] by simp
    have nt: "unat ?nt = (?t + 1) mod unat ?T" using t by (rule advance_ucast_unat)
    have ts: "unat (tx_buffer_tail ?s') = (?t + 1) mod unat ?T"
      using advance_ucast_stored [OF t T] by simp
    have ok: "driver_ok ?s'"
      using en tx rx nw ts t
      by (simp add: driver_ok_def enabled_def tx_ok_def rx_ok_def narrow_def)
    have ne: "?t \<noteq> ?h" using pop(3) by (simp add: word_eq_iff_unsigned [where ?'a = nat])
    have "tx_pending s = ring_units ?f (unat ?T) ?t ((?h + unat ?T - ?t) mod unat ?T)"
      by (simp add: tx_pending_def tx_occupied_def)
    also have "\<dots> = ?f ((?t + 1) mod unat ?T) #
        ring_units ?f (unat ?T) ((?t + 1) mod unat ?T) ((?h + unat ?T - (?t + 1) mod unat ?T) mod unat ?T)"
      using h t ne by (rule ring_pop)
    also have "\<dots> = ?f (unat ?nt) # tx_pending ?s'"
      using ts nt by (simp add: tx_pending_def tx_occupied_def)
    finally have "(UART0_D s @ [?f (unat ?nt)]) @ tx_pending ?s' = UART0_D s @ tx_pending s" by simp
    then show ?thesis using run ok by blast
  qed
qed


lemma isr_single_law:
  assumes "\<not> HAS_KINETISK_UART0_FIFO b" "driver_ok s"
      and "S1_rx r AND UART_S1_RDRF = 0 \<or> rx_occupied s + 1 < unat (rx_buffer_total_size s)"
  shows "\<exists>s'. uart0_status_isr b r s = Some s' \<and> driver_ok s'
           \<and> UART0_D s' @ tx_pending s' = UART0_D s @ tx_pending s
           \<and> rx_pending s' =
               rx_pending s @ (if S1_rx r AND UART_S1_RDRF \<noteq> 0 then [D_rx r 0] else [])"
proof -
  have "\<exists>s1. uart0_status_isr_rx b r s = Some s1 \<and> driver_ok s1
          \<and> UART0_D s1 = UART0_D s \<and> tx_pending s1 = tx_pending s
          \<and> rx_pending s1 =
               rx_pending s @ (if S1_rx r AND UART_S1_RDRF \<noteq> 0 then [D_rx r 0] else [])"
  proof (cases "S1_rx r AND UART_S1_RDRF = 0")
    case True
    then show ?thesis using isr_rx_single_idle [OF assms(1) True] assms(2) by simp
  next
    case False
    then have room: "rx_occupied s + 1 < unat (rx_buffer_total_size s)" using assms(3) by simp
    obtain buf' st' h' where
      "uart0_status_isr_rx b r s =
             Some (s\<lparr>rx_buffer := buf', rx_buffer_storage := st', rx_buffer_head := h'\<rparr>)"
      "driver_ok (s\<lparr>rx_buffer := buf', rx_buffer_storage := st', rx_buffer_head := h'\<rparr>)"
      "rx_pending (s\<lparr>rx_buffer := buf', rx_buffer_storage := st', rx_buffer_head := h'\<rparr>)
               = rx_pending s @ [D_rx r 0]"
      using isr_rx_single_push [OF assms(1,2) False room] by blast
    then show ?thesis using False by (simp add: tx_pending_def tx_occupied_def)
  qed
  then obtain s1 where rx: "uart0_status_isr_rx b r s = Some s1" and ok1: "driver_ok s1"
    and d1: "UART0_D s1 = UART0_D s" and p1: "tx_pending s1 = tx_pending s"
    and r1: "rx_pending s1 =
               rx_pending s @ (if S1_rx r AND UART_S1_RDRF \<noteq> 0 then [D_rx r 0] else [])"
    by blast
  obtain d tl c2 where tx: "uart0_status_isr_tx b r (UART0_C2 s1) s1 =
             Some (s1\<lparr>UART0_D := d, tx_buffer_tail := tl, UART0_C2 := c2\<rparr>)"
    and ok2: "driver_ok (s1\<lparr>UART0_D := d, tx_buffer_tail := tl, UART0_C2 := c2\<rparr>)"
    and p2: "d @ tx_pending (s1\<lparr>UART0_D := d, tx_buffer_tail := tl, UART0_C2 := c2\<rparr>)
               = UART0_D s1 @ tx_pending s1"
    using isr_tx_single_law [OF assms(1) ok1] by blast
  let ?s2 = "s1\<lparr>UART0_D := d, tx_buffer_tail := tl, UART0_C2 := c2\<rparr>"
  obtain tr po c3 c2' where tc: "uart0_status_isr_tc b r (UART0_C2 s1) ?s2 =
      ?s2\<lparr>transmitting := tr, pin_out := po, UART0_C3 := c3, UART0_C2 := c2'\<rparr>"
    using isr_tc_shape by blast
  let ?s3 = "?s2\<lparr>transmitting := tr, pin_out := po, UART0_C3 := c3, UART0_C2 := c2'\<rparr>"
  have run: "uart0_status_isr b r s = Some ?s3"
    using rx tx tc by (simp add: uart0_status_isr_def Let_def)
  have ok3: "driver_ok ?s3"
    using ok2 by (simp add: driver_ok_def enabled_def tx_ok_def rx_ok_def narrow_def)
  have p3: "UART0_D ?s3 @ tx_pending ?s3 = UART0_D s @ tx_pending s"
    using p2 d1 p1 by (simp add: tx_pending_def tx_occupied_def)
  have r3: "rx_pending ?s3 =
               rx_pending s @ (if S1_rx r AND UART_S1_RDRF \<noteq> 0 then [D_rx r 0] else [])"
    using r1 by (simp add: rx_pending_def rx_occupied_def)
  show ?thesis using run ok3 p3 r3 by blast
qed

lemma getchar_law:
  assumes "driver_ok s"
  shows "\<exists>c s'. serial_getchar s = Some (c, s') \<and> driver_ok s'
           \<and> UART0_D s' = UART0_D s \<and> tx_pending s' = tx_pending s
           \<and> (if c = - 1 then got else got @ [c]) @ map uint (rx_pending s')
               = got @ map uint (rx_pending s)"
proof (cases "rx_buffer_head s = rx_buffer_tail s")
  case True
  then have "serial_getchar s = Some (- 1, s)" by (rule serial_getchar_empty)
  then show ?thesis using assms by simp
next
  case False
  let ?T = "rx_buffer_total_size s"
  let ?h = "unat (rx_buffer_head s)" and ?t = "unat (rx_buffer_tail s)"
  let ?f = "unit_at (rx_buffer s) (rx_buffer_storage s)"
  let ?nt = "advance ?T (ucast (rx_buffer_tail s))"
  have en: "enabled s" and tx: "tx_ok s" and rx: "rx_ok s" and nw: "narrow s"
    using assms by (simp_all add: driver_ok_def)
  have h: "?h < unat ?T" and t: "?t < unat ?T" using rx by (simp_all add: rx_ok_def)
  have T: "unat ?T \<le> 256" using nw by (simp add: narrow_def)
  obtain po where get: "serial_getchar s =
      Some (uint (?f (unat ?nt)), s\<lparr>rx_buffer_tail := ucast ?nt, pin_out := po\<rparr>)"
    using serial_getchar_pop [OF rx False] by blast
  let ?s' = "s\<lparr>rx_buffer_tail := ucast ?nt, pin_out := po\<rparr>"
  have nt: "unat ?nt = (?t + 1) mod unat ?T" using t by (rule advance_ucast_unat)
  have ts: "unat (rx_buffer_tail ?s') = (?t + 1) mod unat ?T"
    using advance_ucast_stored [OF t T] by simp
  have ok: "driver_ok ?s'"
    using en tx rx nw ts t
    by (simp add: driver_ok_def enabled_def tx_ok_def rx_ok_def narrow_def)
  have ne: "?t \<noteq> ?h" using False by (simp add: word_eq_iff_unsigned [where ?'a = nat])
  have "rx_pending s = ring_units ?f (unat ?T) ?t ((?h + unat ?T - ?t) mod unat ?T)"
    by (simp add: rx_pending_def rx_occupied_def)
  also have "\<dots> = ?f ((?t + 1) mod unat ?T) #
      ring_units ?f (unat ?T) ((?t + 1) mod unat ?T) ((?h + unat ?T - (?t + 1) mod unat ?T) mod unat ?T)"
    using h t ne by (rule ring_pop)
  also have "\<dots> = ?f (unat ?nt) # rx_pending ?s'"
    using ts nt by (simp add: rx_pending_def rx_occupied_def)
  finally have pend: "rx_pending s = ?f (unat ?nt) # rx_pending ?s'" .
  have nn: "uint (?f (unat ?nt)) \<noteq> - 1"
    using uint_ge_0 [of "?f (unat ?nt)"] by linarith
  have "(if uint (?f (unat ?nt)) = - 1 then got else got @ [uint (?f (unat ?nt))]) @ map uint (rx_pending ?s')
          = got @ map uint (rx_pending s)"
    using nn pend by simp
  moreover have "UART0_D ?s' = UART0_D s" "tx_pending ?s' = tx_pending s"
    by (simp_all add: tx_pending_def tx_occupied_def)
  ultimately show ?thesis using get ok by blast
qed

lemma enqueued_Cons: "enqueued (ev # evs) = enqueued [ev] @ enqueued evs"
  by (cases ev) simp_all

lemma arrived_Cons: "arrived (ev # evs) = arrived [ev] @ arrived evs"
  by (cases ev) simp_all

lemma step_law:
  assumes "\<not> HAS_KINETISK_UART0_FIFO b" "driver_ok s" "has_room ev s"
  shows "\<exists>s' got'. step b e ev (s, got) = Some (s', got') \<and> driver_ok s'
           \<and> UART0_D s' @ tx_pending s' = UART0_D s @ tx_pending s @ enqueued [ev]
           \<and> got' @ map uint (rx_pending s') = got @ map uint (rx_pending s) @ map uint (arrived [ev])"
proof (cases ev)
  case (Put c)
  obtain s' where "serial_putchar b e c s = Some s'" "driver_ok s'" "UART0_D s' = UART0_D s"
    "tx_pending s' = tx_pending s @ [ucast c]" "rx_ring s' = rx_ring s"
    using putchar_push [of s b e c] assms(2,3) Put by auto
  then show ?thesis using Put by (simp add: rx_pending_def rx_occupied_def rx_ring_def)
next
  case (Irq r)
  obtain s' where "uart0_status_isr b r s = Some s'" "driver_ok s'"
    "UART0_D s' @ tx_pending s' = UART0_D s @ tx_pending s"
    "rx_pending s' = rx_pending s @ (if S1_rx r AND UART_S1_RDRF \<noteq> 0 then [D_rx r 0] else [])"
    using isr_single_law [of b s r] assms Irq by auto
  then show ?thesis using Irq by simp
next
  case Get
  obtain c s' where "serial_getchar s = Some (c, s')" "driver_ok s'"
    "UART0_D s' = UART0_D s" "tx_pending s' = tx_pending s"
    "(if c = - 1 then got else got @ [c]) @ map uint (rx_pending s') = got @ map uint (rx_pending s)"
    using getchar_law [OF assms(2), of got] by blast
  then show ?thesis using Get by simp
qed

section \<open>Occupancy and free space (claim C5)\<close>

text \<open>
  Claim C5.  For heads and tails below the total size of their ring, \<open>serial_available\<close>
  returns \<open>(rx_buffer_head - rx_buffer_tail) mod rx_buffer_total_size_\<close>,
  \<open>serial_write_buffer_free\<close> returns
  \<open>tx_buffer_total_size_ - 1 - ((tx_buffer_head - tx_buffer_tail) mod tx_buffer_total_size_)\<close>,
  neither changes a variable, and the occupied count of the transmit ring plus its free
  count is its total size less one.  The total sizes are below \<open>2 ^ 31\<close>, so that the
  counts fit the \<open>int\<close> the functions return.
\<close>

theorem occupancy_free_identity:
  assumes "unat (rx_buffer_head s) < unat (rx_buffer_total_size s)"
      and "unat (rx_buffer_tail s) < unat (rx_buffer_total_size s)"
      and "unat (rx_buffer_total_size s) < 2 ^ 31"
      and "unat (tx_buffer_head s) < unat (tx_buffer_total_size s)"
      and "unat (tx_buffer_tail s) < unat (tx_buffer_total_size s)"
      and "unat (tx_buffer_total_size s) < 2 ^ 31"
  shows "serial_available s =
           ((uint (rx_buffer_head s) - uint (rx_buffer_tail s)) mod uint (rx_buffer_total_size s), s)
       \<and> serial_write_buffer_free s =
           (uint (tx_buffer_total_size s) - 1 -
              (uint (tx_buffer_head s) - uint (tx_buffer_tail s)) mod uint (tx_buffer_total_size s), s)
       \<and> (uint (tx_buffer_head s) - uint (tx_buffer_tail s)) mod uint (tx_buffer_total_size s)
             + fst (serial_write_buffer_free s) = uint (tx_buffer_total_size s) - 1"
proof -
  have s1: "snd (serial_available s) = s" by (simp add: serial_available_def Let_def)
  have s2: "snd (serial_write_buffer_free s) = s" by (simp add: serial_write_buffer_free_def Let_def)
  have a: "fst (serial_available s) =
      (uint (rx_buffer_head s) - uint (rx_buffer_tail s)) mod uint (rx_buffer_total_size s)"
    using serial_available_value [OF assms(1,2,3)] assms(2)
      occ_int [OF assms(2), of "unat (rx_buffer_head s)"]
    by simp
  have occ_lt: "(unat (tx_buffer_head s) + unat (tx_buffer_total_size s) - unat (tx_buffer_tail s))
                  mod unat (tx_buffer_total_size s) < unat (tx_buffer_total_size s)"
    using assms(4) by (intro mod_less_divisor) simp
  have f: "fst (serial_write_buffer_free s) =
      uint (tx_buffer_total_size s) - 1 -
              (uint (tx_buffer_head s) - uint (tx_buffer_tail s)) mod uint (tx_buffer_total_size s)"
    using serial_write_buffer_free_value [OF assms(4,5,6)] occ_lt
      occ_int [OF assms(5), of "unat (tx_buffer_head s)"]
    by (simp add: of_nat_diff)
  show ?thesis using a f s1 s2 by (simp add: prod_eq_iff)
qed

text \<open>
  The theorem at \<open>example_rings\<close>: 7 units wait in the receive ring, and the transmit ring,
  which holds 6, has room for 57.
\<close>

theorem occupancy_free_identity_witness:
  "serial_available example_rings = (7, example_rings)
   \<and> serial_write_buffer_free example_rings = (57, example_rings)
   \<and> (6::int) + fst (serial_write_buffer_free example_rings) = 63"
  using occupancy_free_identity [of example_rings]
  by (simp add: example_rings_def startup_def SERIAL1_RX_BUFFER_SIZE_def SERIAL1_TX_BUFFER_SIZE_def)

section \<open>A disabled peripheral (claim C9)\<close>

lemma write_each_disabled:
  "SIM_SCGC4 s AND SIM_SCGC4_UART0 = 0 \<Longrightarrow> n \<le> length p \<Longrightarrow> write_each b e p n s = Some s"
  by (induction n arbitrary: p) (auto simp: serial_putchar_def split: list.splits)

text \<open>
  Claim C9.  While the UART0 bit of \<open>SIM_SCGC4\<close> is clear, \<open>serial_putchar\<close> and
  \<open>serial_write\<close>, for every count of units the caller's array holds, return with every
  variable and register as it was: the transmit ring, the transmitting flag, the pins and
  the peripheral registers.  No error is reported: the functions return normally.
\<close>

theorem disabled_no_op:
  assumes "SIM_SCGC4 s AND SIM_SCGC4_UART0 = 0" and "unat count \<le> length buf"
  shows "serial_putchar b e c s = Some s \<and> serial_write b e buf count s = Some s"
  using assms by (simp add: serial_putchar_def serial_write_def write_each_disabled)

text \<open>The theorem before \<open>serial_begin\<close> has switched the clock on, in both variants of the file.\<close>

theorem disabled_no_op_witness:
  "serial_putchar kinetisl thread_mode 65 startup = Some startup
   \<and> serial_write kinetisl thread_mode [104, 105, 10] 3 startup = Some startup
   \<and> serial_write kinetisk thread_mode [104, 105, 10] 3 startup = Some startup"
  using disabled_no_op [of startup 3 "[104, 105, 10]" kinetisl thread_mode 65]
    disabled_no_op [of startup 3 "[104, 105, 10]" kinetisk thread_mode 65]
  by (simp add: startup_def)

section \<open>serial\_clear (claim C8)\<close>

text \<open>
  Claim C8 says that \<open>serial_clear\<close> sets the tail to the head and leaves the head
  alone.  At \<open>example_rings\<close> (head 3, tail 60) the call leaves the tail at 60 and moves the
  head to 60: the statement of the claim is false there.
\<close>

theorem serial_clear_counterexample:
  "\<not> (rx_buffer_tail (serial_clear kinetisl example_rings) = rx_buffer_head example_rings
       \<and> rx_buffer_head (serial_clear kinetisl example_rings) = rx_buffer_head example_rings)"
  by (simp add: serial_clear_def kinetisl_def example_rings_def startup_def)

text \<open>
  Claim C8, amended.  \<open>serial_clear\<close> empties the receive ring by setting the head to the
  tail (the tail is unchanged); if an RTS pin is configured it drives RTS to its asserted
  level, and no other pin changes; afterwards \<open>serial_available\<close> returns 0.  In the FIFO
  variant the call does this only while the UART0 clock is enabled, and changes nothing
  otherwise.
\<close>

theorem serial_clear_sets_head:
  "if HAS_KINETISK_UART0_FIFO b \<and> SIM_SCGC4 s AND SIM_SCGC4_UART0 = 0
   then serial_clear b s = s
   else rx_buffer_head (serial_clear b s) = rx_buffer_tail s
      \<and> rx_buffer_tail (serial_clear b s) = rx_buffer_tail s
      \<and> pin_out (serial_clear b s) =
            (case rts_pin s of None \<Rightarrow> pin_out s | Some p \<Rightarrow> (pin_out s)(p := False))
      \<and> serial_available (serial_clear b s) = (0, serial_clear b s)"
  by (simp add: serial_clear_def serial_available_def rts_assert_def Let_def split: option.split)

text \<open>The theorem at \<open>example_rings\<close>, whose seven waiting units are dropped.\<close>

theorem serial_clear_sets_head_witness:
  "rx_buffer_head (serial_clear kinetisl example_rings) = 60
   \<and> rx_buffer_tail (serial_clear kinetisl example_rings) = 60
   \<and> fst (serial_available (serial_clear kinetisl example_rings)) = 0"
  using serial_clear_sets_head [of kinetisl example_rings]
  by (simp add: kinetisl_def example_rings_def startup_def)

section \<open>Extension memory for the receive ring (claim C6)\<close>

lemma add_memory_for_read_installs:
  "rx_buffer_total_size (serial_add_memory_for_read (Some ext) len s) = SERIAL1_RX_BUFFER_SIZE + len
   \<and> rts_low_watermark (serial_add_memory_for_read (Some ext) len s) = RTS_LOW_WATERMARK + len
   \<and> rts_high_watermark (serial_add_memory_for_read (Some ext) len s) = RTS_HIGH_WATERMARK + len
   \<and> rx_buffer_storage (serial_add_memory_for_read (Some ext) len s) = Some ext"
  by (simp add: serial_add_memory_for_read_def)

lemma add_memory_for_read_null:
  "rx_buffer_total_size (serial_add_memory_for_read None len s) = SERIAL1_RX_BUFFER_SIZE
   \<and> rts_low_watermark (serial_add_memory_for_read None len s) = RTS_LOW_WATERMARK + len
   \<and> rts_high_watermark (serial_add_memory_for_read None len s) = RTS_HIGH_WATERMARK + len"
  by (simp add: serial_add_memory_for_read_def)

text \<open>
  Claim C6 says that a call with a null buffer puts the total size and both watermarks
  back to their values without an extension.  The function guards the total size with
  \<open>if (buffer)\<close> but adds \<open>length\<close> to the watermarks without looking at the buffer:
  \<open>serial_add_memory_for_read(NULL, 10)\<close> on the variables as they start leaves the total
  size at 64 and moves the watermarks from 26 and 40 to 36 and 50.
\<close>

theorem add_memory_null_with_length:
  "rx_buffer_total_size (serial_add_memory_for_read None 10 startup) = 64
   \<and> rts_low_watermark (serial_add_memory_for_read None 10 startup) = 36
   \<and> rts_high_watermark (serial_add_memory_for_read None 10 startup) = 50
   \<and> rts_low_watermark startup = 26 \<and> rts_high_watermark startup = 40"
  by (simp add: serial_add_memory_for_read_def startup_def SERIAL1_RX_BUFFER_SIZE_def
      RTS_LOW_WATERMARK_def RTS_HIGH_WATERMARK_def)

section \<open>Overflow of the receive ring (claim C2)\<close>

text \<open>The definitions of the constants and of the two builds, for evaluating closed instances.\<close>

lemmas constant_defs = SERIAL1_TX_BUFFER_SIZE_def SERIAL1_RX_BUFFER_SIZE_def RTS_HIGH_WATERMARK_def
  RTS_LOW_WATERMARK_def IRQ_PRIORITY_def SIM_SCGC4_UART0_def UART_C2_TIE_def UART_C2_TCIE_def
  UART_C2_RIE_def UART_C2_ILIE_def UART_C2_TE_def UART_C2_RE_def UART_S1_TDRE_def UART_S1_TC_def
  UART_S1_RDRF_def UART_S1_IDLE_def UART_C3_TXDIR_def UART_CFIFO_RXFLUSH_def C2_ENABLE_def
  C2_TX_ACTIVE_def C2_TX_COMPLETING_def C2_TX_INACTIVE_def kinetisl_def kinetisk_def

text \<open>
  Claim C2.  When the receive ring is full (the head advanced by one modulo the total size
  is the tail), the handler returns with the head, the tail, the occupied count and every
  slot of the static array and of the extension as they were, whatever it reads from the
  peripheral: a unit that arrives is dropped, and the handler has no result that could
  report it.  This holds for both variants of the handler; the transmit ring is
  well formed, so that the transmit block of the same invocation is defined.
\<close>

theorem rx_overflow_drop:
  assumes "unat (rx_buffer_head s) < unat (rx_buffer_total_size s)"
      and "(unat (rx_buffer_head s) + 1) mod unat (rx_buffer_total_size s) = unat (rx_buffer_tail s)"
      and "tx_ok s"
  shows "\<exists>s'. uart0_status_isr b r s = Some s'
           \<and> rx_buffer_head s' = rx_buffer_head s \<and> rx_buffer_tail s' = rx_buffer_tail s
           \<and> rx_buffer s' = rx_buffer s \<and> rx_buffer_storage s' = rx_buffer_storage s
           \<and> fst (serial_available s') = fst (serial_available s)"
proof -
  obtain po cf where rx: "uart0_status_isr_rx b r s = Some (s\<lparr>pin_out := po, UART0_CFIFO := cf\<rparr>)"
    using isr_rx_full [OF assms(1,2)] by blast
  let ?s1 = "s\<lparr>pin_out := po, UART0_CFIFO := cf\<rparr>"
  have "tx_ok ?s1" using assms(3) by (simp add: tx_ok_def)
  then obtain d tl tr po' c3 c2 where "uart0_status_isr b r s =
           Some (?s1\<lparr>UART0_D := d, tx_buffer_tail := tl, transmitting := tr, pin_out := po',
                    UART0_C3 := c3, UART0_C2 := c2\<rparr>)"
    using isr_after_rx [OF rx] by blast
  then show ?thesis by (simp add: serial_available_def Let_def)
qed

text \<open>
  The theorem at \<open>full_rx\<close>, with the unit \<open>0x55\<close> arriving, in the L-series build and in
  the K-series build with the FIFO.
\<close>

theorem rx_overflow_drop_witness:
  "(\<exists>s'. uart0_status_isr kinetisl rx_event full_rx = Some s'
       \<and> rx_buffer_head s' = 62 \<and> rx_buffer_tail s' = 63
       \<and> rx_buffer s' = replicate 64 0 \<and> rx_buffer_storage s' = None
       \<and> fst (serial_available s') = 63)
   \<and> (\<exists>s'. uart0_status_isr kinetisk rx_event full_rx = Some s'
       \<and> rx_buffer_head s' = 62 \<and> rx_buffer_tail s' = 63
       \<and> rx_buffer s' = replicate 64 0 \<and> rx_buffer_storage s' = None
       \<and> fst (serial_available s') = 63)"
  using rx_overflow_drop [of full_rx kinetisl rx_event] rx_overflow_drop [of full_rx kinetisk rx_event]
  by (simp add: full_rx_def startup_def tx_ok_def storage_covers_def serial_available_def
      constant_defs Let_def word_le_nat_alt)

section \<open>The transmit state machine (claim C4)\<close>

lemma one_pending_reached:
  "serial_putchar kinetisl thread_mode 65 (serial_begin kinetisl startup) = Some one_pending"
  by (simp add: serial_putchar_def serial_begin_def startup_def one_pending_def thread_mode_def
      putchar_wait.simps advance_def tx_store_def ring_store_def constant_defs Let_def word_le_nat_alt word_less_nat_alt)

text \<open>
  Claim C4 says that the handler switches the interrupt enables from \<open>C2_TX_ACTIVE\<close> to
  \<open>C2_TX_COMPLETING\<close> when the pop of a transmit-ready event empties the transmit ring.
  At \<open>one_pending\<close>, where the ring holds one unit, the handler of the L-series build
  writes the unit to the data register, which empties the ring, and leaves the enables at
  \<open>C2_TX_ACTIVE\<close>.
\<close>

theorem completing_counterexample:
  "uart0_status_isr kinetisl tx_event one_pending = Some drained
   \<and> tx_buffer_head drained = tx_buffer_tail drained
   \<and> UART0_C2 drained = C2_TX_ACTIVE kinetisl
   \<and> UART0_C2 drained \<noteq> C2_TX_COMPLETING kinetisl"
  by (simp add: uart0_status_isr_def uart0_status_isr_rx_def uart0_status_isr_tx_def
      uart0_status_isr_tc_def tx_event_def one_pending_def drained_def startup_def
      tx_load_def ring_load_def advance_def constant_defs Let_def word_le_nat_alt word_less_nat_alt)

text \<open>
  Claim C4, amended.  In the variant without the hardware FIFO, on a transmit-ready event
  in the state Active (\<open>UART0_C2 = C2_TX_ACTIVE\<close>, \<open>TDRE\<close> set) the handler pops one unit
  from the transmit ring into the data register when the ring is not empty and leaves the
  interrupt enables at \<open>C2_TX_ACTIVE\<close>, also when that pop empties the ring; when it
  finds the ring empty it writes nothing and switches the enables to
  \<open>C2_TX_COMPLETING\<close>.  In both variants, on a transmit-complete event with the
  transmit-complete interrupt enabled the handler clears \<open>transmitting\<close>, drives the
  transmit-enable pin, if one is configured, to its deasserted level, and sets the
  enables to \<open>C2_TX_INACTIVE\<close>.
\<close>

theorem tx_interrupt_transitions:
  assumes "rx_ok s" "tx_ok s"
  shows "(\<not> HAS_KINETISK_UART0_FIFO b \<and> UART0_C2 s = C2_TX_ACTIVE b
            \<and> S1_tx r AND UART_S1_TDRE \<noteq> 0 \<and> tx_buffer_head s \<noteq> tx_buffer_tail s \<longrightarrow>
          (\<exists>s'. uart0_status_isr b r s = Some s'
             \<and> UART0_D s' = UART0_D s @
                  [unit_at (tx_buffer s) (tx_buffer_storage s)
                     (unat (advance (tx_buffer_total_size s) (ucast (tx_buffer_tail s))))]
             \<and> tx_buffer_tail s' = ucast (advance (tx_buffer_total_size s) (ucast (tx_buffer_tail s)))
             \<and> tx_buffer_head s' = tx_buffer_head s
             \<and> UART0_C2 s' = C2_TX_ACTIVE b))
       \<and> (\<not> HAS_KINETISK_UART0_FIFO b \<and> UART0_C2 s = C2_TX_ACTIVE b
            \<and> S1_tx r AND UART_S1_TDRE \<noteq> 0 \<and> tx_buffer_head s = tx_buffer_tail s \<longrightarrow>
          (\<exists>s'. uart0_status_isr b r s = Some s'
             \<and> UART0_D s' = UART0_D s \<and> tx_buffer_tail s' = tx_buffer_tail s
             \<and> tx_buffer_head s' = tx_buffer_head s
             \<and> UART0_C2 s' = C2_TX_COMPLETING b))
       \<and> (UART0_C2 s AND UART_C2_TCIE \<noteq> 0 \<and> S1_tc r AND UART_S1_TC \<noteq> 0 \<longrightarrow>
          (\<exists>s'. uart0_status_isr b r s = Some s'
             \<and> transmitting s' = 0
             \<and> (case transmit_pin s of None \<Rightarrow> True | Some p \<Rightarrow> \<not> pin_out s' p)
             \<and> UART0_C2 s' = C2_TX_INACTIVE b))"
proof -
  obtain buf' st' h' po cf where rx: "uart0_status_isr_rx b r s =
             Some (s\<lparr>rx_buffer := buf', rx_buffer_storage := st', rx_buffer_head := h',
                     pin_out := po, UART0_CFIFO := cf\<rparr>)"
    using isr_rx_ok [OF assms(1)] by blast
  let ?s1 = "s\<lparr>rx_buffer := buf', rx_buffer_storage := st', rx_buffer_head := h',
                     pin_out := po, UART0_CFIFO := cf\<rparr>"
  have ok1: "tx_ok ?s1" using assms(2) by (simp add: tx_ok_def)
  have pop: "\<exists>s'. uart0_status_isr b r s = Some s'
             \<and> UART0_D s' = UART0_D s @
                  [unit_at (tx_buffer s) (tx_buffer_storage s)
                     (unat (advance (tx_buffer_total_size s) (ucast (tx_buffer_tail s))))]
             \<and> tx_buffer_tail s' = ucast (advance (tx_buffer_total_size s) (ucast (tx_buffer_tail s)))
             \<and> tx_buffer_head s' = tx_buffer_head s
             \<and> UART0_C2 s' = C2_TX_ACTIVE b" if "\<not> HAS_KINETISK_UART0_FIFO b" "UART0_C2 s = C2_TX_ACTIVE b"
      "S1_tx r AND UART_S1_TDRE \<noteq> 0" "tx_buffer_head s \<noteq> tx_buffer_tail s"
  proof -
    have "uart0_status_isr_tx b r (UART0_C2 ?s1) ?s1 = Some (?s1\<lparr>UART0_D := UART0_D ?s1 @
                      [unit_at (tx_buffer ?s1) (tx_buffer_storage ?s1)
                         (unat (advance (tx_buffer_total_size ?s1) (ucast (tx_buffer_tail ?s1))))],
                   tx_buffer_tail := ucast (advance (tx_buffer_total_size ?s1) (ucast (tx_buffer_tail ?s1)))\<rparr>)"
      by (rule isr_tx_single_pop [OF that(1) ok1]) (use that in \<open>simp_all add: c2_active_bits\<close>)
    then show ?thesis
      using that rx
      by (simp add: uart0_status_isr_def Let_def isr_tc_idle c2_active_bits c2_completing_bits)
  qed
  have empty: "\<exists>s'. uart0_status_isr b r s = Some s'
             \<and> UART0_D s' = UART0_D s \<and> tx_buffer_tail s' = tx_buffer_tail s
             \<and> tx_buffer_head s' = tx_buffer_head s
             \<and> UART0_C2 s' = C2_TX_COMPLETING b" if "\<not> HAS_KINETISK_UART0_FIFO b" "UART0_C2 s = C2_TX_ACTIVE b"
      "S1_tx r AND UART_S1_TDRE \<noteq> 0" "tx_buffer_head s = tx_buffer_tail s"
  proof -
    have "uart0_status_isr_tx b r (UART0_C2 ?s1) ?s1 = Some (?s1\<lparr>UART0_C2 := C2_TX_COMPLETING b\<rparr>)"
      by (rule isr_tx_single_empty [OF that(1)]) (use that in \<open>simp_all add: c2_active_bits\<close>)
    then show ?thesis
      using that rx
      by (simp add: uart0_status_isr_def Let_def isr_tc_idle c2_active_bits c2_completing_bits)
  qed
  have fin: "\<exists>s'. uart0_status_isr b r s = Some s'
             \<and> transmitting s' = 0
             \<and> (case transmit_pin s of None \<Rightarrow> True | Some p \<Rightarrow> \<not> pin_out s' p)
             \<and> UART0_C2 s' = C2_TX_INACTIVE b"
    if "UART0_C2 s AND UART_C2_TCIE \<noteq> 0" "S1_tc r AND UART_S1_TC \<noteq> 0"
  proof -
    obtain d tl c2 where tx: "uart0_status_isr_tx b r (UART0_C2 ?s1) ?s1 =
           Some (?s1\<lparr>UART0_D := d, tx_buffer_tail := tl, UART0_C2 := c2\<rparr>)"
      using isr_tx_ok [OF ok1] by blast
    have c: "UART0_C2 ?s1 AND UART_C2_TCIE \<noteq> 0" using that(1) by simp
    show ?thesis
      using rx tx isr_tc_fires [OF c that(2)]
      by (simp add: uart0_status_isr_def Let_def split: option.split)
  qed
  show ?thesis using pop empty fin by blast
qed

text \<open>
  The theorem along one burst of the L-series build: the unit of \<open>one_pending\<close> is sent,
  the next transmit-ready event finds the ring empty, and the transmit-complete event
  ends the burst.
\<close>

theorem tx_interrupt_transitions_witness:
  "(\<exists>s'. uart0_status_isr kinetisl tx_event one_pending = Some s'
       \<and> UART0_D s' = [65] \<and> tx_buffer_tail s' = 1 \<and> tx_buffer_head s' = 1
       \<and> UART0_C2 s' = C2_TX_ACTIVE kinetisl)
   \<and> (\<exists>s'. uart0_status_isr kinetisl tx_event drained = Some s'
       \<and> UART0_D s' = [65] \<and> tx_buffer_tail s' = 1 \<and> tx_buffer_head s' = 1
       \<and> UART0_C2 s' = C2_TX_COMPLETING kinetisl)
   \<and> (\<exists>s'. uart0_status_isr kinetisl tc_event completing = Some s'
       \<and> transmitting s' = 0 \<and> UART0_C2 s' = C2_TX_INACTIVE kinetisl)"
  using tx_interrupt_transitions [of one_pending kinetisl tx_event]
    tx_interrupt_transitions [of drained kinetisl tx_event]
    tx_interrupt_transitions [of completing kinetisl tc_event]
  by (simp add: one_pending_def drained_def completing_def startup_def tx_event_def tc_event_def
      rx_ok_def tx_ok_def storage_covers_def unit_at_def advance_def
      constant_defs Let_def word_le_nat_alt)

section \<open>serial\_getchar (claim C7)\<close>

text \<open>
  Claim C7 says that on a non-empty ring \<open>serial_getchar\<close> advances the tail by one modulo
  the total capacity and returns the unit at the new tail.  The tail is a \<open>uint8_t\<close>,
  chosen for the 64 slots of the static array, and \<open>serial_add_memory_for_read\<close> accepts
  any length: at \<open>wide_rx\<close> (total size 264, tail 255) the function reads index 256, as the
  claim says, and returns the unit there, but the tail it stores is 0, the 32-bit value
  256 cut to 8 bits, where another unit lies.
\<close>

theorem getchar_tail_wraps_at_256:
  "rx_buffer_total_size wide_rx = 264
   \<and> rx_buffer_head wide_rx \<noteq> rx_buffer_tail wide_rx
   \<and> (unat (rx_buffer_tail wide_rx) + 1) mod unat (rx_buffer_total_size wide_rx) = 256
   \<and> serial_getchar wide_rx = Some (65, wide_rx\<lparr>rx_buffer_tail := 0\<rparr>)
   \<and> unit_at (rx_buffer wide_rx) (rx_buffer_storage wide_rx) 256 = 65
   \<and> unit_at (rx_buffer wide_rx) (rx_buffer_storage wide_rx) 0 = 0"
  by (simp add: wide_rx_def serial_add_memory_for_read_def serial_begin_def startup_def
      serial_getchar_def rx_load_def ring_load_def advance_def unit_at_def nth_append
      constant_defs Let_def word_le_nat_alt word_less_nat_alt)

section \<open>RTS flow control (claim C3)\<close>

text \<open>
  The receive block of the FIFO variant, for a ring whose indices fit the 8-bit head:
  when it has drained the hardware FIFO it drives RTS to its deasserted level exactly
  when the occupancy it computes from the new head and the tail has reached the high
  watermark, and never to the asserted level.  \<open>serial_getchar_pop\<close> is the other half:
  a successful \<open>serial_getchar\<close> drives RTS to its asserted level exactly when the
  occupancy it computes is at most the low watermark.
\<close>

lemma isr_rx_fifo_rts:
  assumes "HAS_KINETISK_UART0_FIFO b" "rx_ok s" "unat (rx_buffer_total_size s) \<le> 256"
      and "S1_rx r AND (UART_S1_RDRF OR UART_S1_IDLE) \<noteq> 0" "RCFIFO r \<noteq> 0"
  shows "\<exists>s'. uart0_status_isr_rx b r s = Some s'
           \<and> rx_buffer_tail s' = rx_buffer_tail s
           \<and> pin_out s' =
               (case rts_pin s of
                  None \<Rightarrow> pin_out s
                | Some p \<Rightarrow>
                    if rts_high_watermark s
                         \<le> rx_avail s' (ucast (rx_buffer_head s')) (ucast (rx_buffer_tail s'))
                    then (pin_out s)(p := True) else pin_out s)"
proof -
  let ?T = "rx_buffer_total_size s"
  have len: "length (rx_buffer s) = 64" and cov: "storage_covers ?T (rx_buffer_storage s)"
    using assms(2) by (simp_all add: rx_ok_def)
  have h: "unat (ucast (rx_buffer_head s) :: 32 word) < unat ?T"
    using assms(2) by (simp add: rx_ok_def unat_ucast_8_32)
  obtain head' buf' st' where d: "rx_drain r (ucast (rx_buffer_tail s)) (unat (RCFIFO r)) 0 (ucast (rx_buffer_head s)) s
          = Some (head', s\<lparr>rx_buffer := buf', rx_buffer_storage := st'\<rparr>)"
    and hl: "unat head' < unat ?T"
    using rx_drain_ok [OF len cov h] by blast
  have "unat head' < 256" using hl assms(3) by simp
  then have "unat (ucast head' :: 8 word) = unat head'" by (rule unat_ucast_32_8)
  then have rt: "(ucast (ucast head' :: 8 word) :: 32 word) = head'"
    by (simp add: word_eq_iff_unsigned [where ?'a = nat] unat_ucast_8_32)
  let ?s2 = "s\<lparr>rx_buffer := buf', rx_buffer_storage := st', rx_buffer_head := ucast head'\<rparr>"
  let ?po = "case rts_pin s of None \<Rightarrow> pin_out s
               | Some p \<Rightarrow> if rx_avail ?s2 head' (ucast (rx_buffer_tail s)) \<ge> rts_high_watermark s
                           then (pin_out s)(p := True) else pin_out s"
  have run: "uart0_status_isr_rx b r s = Some (?s2\<lparr>pin_out := ?po\<rparr>)"
    using assms(1,4,5) d
    by (simp add: uart0_status_isr_rx_def Let_def rts_deassert_def rx_avail_def split: option.split)
  have "pin_out (?s2\<lparr>pin_out := ?po\<rparr>) =
               (case rts_pin s of
                  None \<Rightarrow> pin_out s
                | Some p \<Rightarrow>
                    if rts_high_watermark s
                         \<le> rx_avail (?s2\<lparr>pin_out := ?po\<rparr>) (ucast (rx_buffer_head (?s2\<lparr>pin_out := ?po\<rparr>)))
                              (ucast (rx_buffer_tail (?s2\<lparr>pin_out := ?po\<rparr>)))
                    then (pin_out s)(p := True) else pin_out s)"
    by (simp add: rt rx_avail_def split: option.split)
  moreover have "rx_buffer_tail (?s2\<lparr>pin_out := ?po\<rparr>) = rx_buffer_tail s" by simp
  ultimately show ?thesis using run by blast
qed

text \<open>
  Claim C3 says that the handler, after it has put the received units into the ring,
  drives RTS to its deasserted level when the occupancy has reached the high watermark.
  The FIFO variant of the receive block does so; the variant without the FIFO has no such
  statement.  At \<open>near_high\<close> the L-series handler receives the unit that brings the
  occupancy to the high watermark, 40, and leaves the RTS pin asserted; the K-series
  handler deasserts it in the same situation.
\<close>

theorem rts_stays_asserted_without_fifo:
  "uart0_status_isr kinetisl rx_event near_high = Some at_high
   \<and> serial_available at_high = (40, at_high)
   \<and> rts_high_watermark at_high = 40
   \<and> rts_pin at_high = Some 6
   \<and> pin_out at_high 6 = False
   \<and> map_option (\<lambda>s. pin_out s 6) (uart0_status_isr kinetisk rx_event near_high) = Some True"
  by (simp add: near_high_def at_high_def serial_begin_def startup_def rx_event_def
      uart0_status_isr_def uart0_status_isr_rx_def uart0_status_isr_tx_def uart0_status_isr_tc_def
      rx_store_def ring_store_def advance_def serial_available_def rx_avail_def rts_deassert_def
      constant_defs Let_def word_le_nat_alt word_less_nat_alt)

section \<open>serial\_print (claim C10)\<close>

text \<open>
  What a sequence of \<open>serial_putchar\<close> calls leaves in a ring with room for all of it:
  every call returns, and the units are appended to the pending ones in the order of the
  calls, each narrowed to the width of a slot.
\<close>

lemma length_ring_units: "length (ring_units f T t n) = n"
  by (induction n arbitrary: t) simp_all

lemma length_tx_pending: "length (tx_pending s) = tx_occupied s"
  by (simp add: tx_pending_def length_ring_units)

lemma enqueue_all_pending:
  assumes "driver_ok s" "tx_occupied s + length cs < unat (tx_buffer_total_size s)"
  shows "\<exists>s'. enqueue_all b e cs s = Some s' \<and> driver_ok s'
           \<and> UART0_D s' = UART0_D s
           \<and> tx_pending s' = tx_pending s @ map ucast cs"
  using assms
proof (induction cs arbitrary: s)
  case Nil
  then show ?case by simp
next
  case (Cons c cs)
  have room: "tx_occupied s + 1 < unat (tx_buffer_total_size s)" using Cons.prems(2) by simp
  obtain s1 where p: "serial_putchar b e c s = Some s1" and ok: "driver_ok s1"
    and d: "UART0_D s1 = UART0_D s" and pd: "tx_pending s1 = tx_pending s @ [ucast c]"
    and T: "tx_buffer_total_size s1 = tx_buffer_total_size s"
    using putchar_push [OF Cons.prems(1) room, of b e c] by blast
  have "tx_occupied s1 = tx_occupied s + 1"
    using pd length_tx_pending [of s1] length_tx_pending [of s] by simp
  then have room1: "tx_occupied s1 + length cs < unat (tx_buffer_total_size s1)"
    using Cons.prems(2) T by simp
  obtain s' where "enqueue_all b e cs s1 = Some s'" "driver_ok s'" "UART0_D s' = UART0_D s1"
    "tx_pending s' = tx_pending s1 @ map ucast cs"
    using Cons.IH [OF ok room1] by blast
  then show ?case using p d pd by simp
qed

text \<open>
  Claim C10.  For a string \<open>s\<close> without a NUL, followed in memory by a NUL and anything
  else, \<open>serial_print\<close> does what handing the characters of \<open>crlf s\<close> one by one to
  \<open>serial_putchar\<close> does: the characters of \<open>s\<close> in order, each unchanged, with a
  carriage return before every line feed, and nothing of what follows the NUL.  The two
  sides agree also where a call of \<open>serial_putchar\<close> does not return.
\<close>

theorem serial_print_enqueues:
  "0 \<notin> set s \<Longrightarrow> serial_print b e (s @ 0 # rest) st = enqueue_all b e (crlf s) st"
proof (induction s arbitrary: st)
  case Nil
  then show ?case by simp
next
  case (Cons c s)
  then show ?case by (auto split: option.splits)
qed

text \<open>
  The theorem for the string \<open>hi\<close> and a line feed, printed after \<open>serial_begin\<close>: the
  four units 104, 105, 13, 10 are in the transmit ring, and the \<open>!\<close> after the NUL is not.
\<close>

theorem serial_print_enqueues_witness:
  "serial_print kinetisl thread_mode [104, 105, 10, 0, 33] (serial_begin kinetisl startup)
     = enqueue_all kinetisl thread_mode [104, 105, 13, 10] (serial_begin kinetisl startup)
   \<and> serial_print kinetisl thread_mode [104, 105, 10, 0, 33] (serial_begin kinetisl startup)
     = Some ((serial_begin kinetisl startup)
               \<lparr>tx_buffer := (replicate 64 0)[1 := 104, 2 := 105, 3 := 13, 4 := 10],
                transmitting := 1, tx_buffer_head := 4, UART0_C2 := C2_TX_ACTIVE kinetisl\<rparr>)"
  using serial_print_enqueues [of "[104, 105, 10]" kinetisl thread_mode "[33]" "serial_begin kinetisl startup"]
  by (simp add: serial_putchar_def serial_begin_def startup_def thread_mode_def
      putchar_wait.simps advance_def tx_store_def ring_store_def constant_defs Let_def
      word_le_nat_alt word_less_nat_alt)

section \<open>First in, first out (claim C1)\<close>

text \<open>
  The law for rings whose indices fit the \<open>uint8_t\<close> head and tail (total sizes up to 256,
  with or without an extension), in the variant of the handler without the hardware
  FIFO.  In a run of \<open>serial_putchar\<close> and \<open>serial_getchar\<close> calls and handler invocations
  that never has more than \<open>total - 1\<close> units pending in a ring, every call returns; the
  units written to the data register, followed by the units still in the transmit ring,
  are the units handed to \<open>serial_putchar\<close> in their order; and the units
  \<open>serial_getchar\<close> has returned, followed by the units still in the receive ring, are
  the units that arrived in their order.
\<close>

theorem fifo_law:
  assumes "\<not> HAS_KINETISK_UART0_FIFO b" "driver_ok s" "never_overfull b e evs (s, got)"
  shows "\<exists>s' got'. run b e evs (s, got) = Some (s', got') \<and> driver_ok s'
           \<and> UART0_D s' @ tx_pending s' = UART0_D s @ tx_pending s @ enqueued evs
           \<and> got' @ map uint (rx_pending s') = got @ map uint (rx_pending s) @ map uint (arrived evs)"
  using assms(2,3)
proof (induction evs arbitrary: s got)
  case Nil
  then show ?case by simp
next
  case (Cons ev evs)
  have room: "has_room ev s" using Cons.prems(2) by simp
  obtain s1 got1 where st: "step b e ev (s, got) = Some (s1, got1)" and ok1: "driver_ok s1"
    and t1: "UART0_D s1 @ tx_pending s1 = UART0_D s @ tx_pending s @ enqueued [ev]"
    and r1: "got1 @ map uint (rx_pending s1) = got @ map uint (rx_pending s) @ map uint (arrived [ev])"
    using step_law [OF assms(1) Cons.prems(1) room, of e got] by blast
  have nf: "never_overfull b e evs (s1, got1)" using Cons.prems(2) st by simp
  obtain s' got' where rn: "run b e evs (s1, got1) = Some (s', got')" and ok: "driver_ok s'"
    and t2: "UART0_D s' @ tx_pending s' = UART0_D s1 @ tx_pending s1 @ enqueued evs"
    and r2: "got' @ map uint (rx_pending s') = got1 @ map uint (rx_pending s1) @ map uint (arrived evs)"
    using Cons.IH [OF ok1 nf] by blast
  have "run b e (ev # evs) (s, got) = Some (s', got')" using st rn by simp
  moreover have "UART0_D s' @ tx_pending s' = UART0_D s @ tx_pending s @ enqueued (ev # evs)"
    using t1 t2 by (simp add: enqueued_Cons [of ev evs])
  moreover have "got' @ map uint (rx_pending s') = got @ map uint (rx_pending s) @ map uint (arrived (ev # evs))"
    using r1 r2 by (simp add: arrived_Cons [of ev evs])
  ultimately show ?case using ok by blast
qed

text \<open>
  A run after \<open>serial_begin\<close>: two units are enqueued, one arrives and is read, and the
  handler sends the two.
\<close>

lemma fifo_law_instance:
  "\<exists>s' got'. run kinetisl thread_mode [Put 104, Put 105, Irq rx_event, Get, Irq tx_event, Irq tx_event]
                 (serial_begin kinetisl startup, []) = Some (s', got')
       \<and> UART0_D s' @ tx_pending s' = [104, 105]
       \<and> got' @ map uint (rx_pending s') = [85]"
  using fifo_law [of kinetisl "serial_begin kinetisl startup" thread_mode
      "[Put 104, Put 105, Irq rx_event, Get, Irq tx_event, Irq tx_event]" "[]"]
  by (simp add: serial_begin_def startup_def thread_mode_def rx_event_def tx_event_def
      driver_ok_def enabled_def tx_ok_def rx_ok_def narrow_def storage_covers_def
      tx_occupied_def rx_occupied_def tx_pending_def rx_pending_def
      serial_putchar_def putchar_wait.simps advance_def tx_store_def rx_store_def ring_store_def
      tx_load_def rx_load_def ring_load_def serial_getchar_def
      uart0_status_isr_def uart0_status_isr_rx_def uart0_status_isr_tx_def uart0_status_isr_tc_def
      constant_defs Let_def word_le_nat_alt word_less_nat_alt)

lemma enqueue_all_append:
  "enqueue_all b e (xs @ ys) s =
     (case enqueue_all b e xs s of None \<Rightarrow> None | Some s' \<Rightarrow> enqueue_all b e ys s')"
  by (induction xs arbitrary: s) (simp_all split: option.split)

lemma unat_ucast_32_8_mod: "unat (ucast (x :: 32 word) :: 8 word) = unat x mod 256"
  by (simp add: unsigned_ucast_eq take_bit_eq_mod)

lemma wide_put:
  assumes "enabled s" "tx_ok s" "unat (tx_buffer_total_size s) = 264"
      and "tx_buffer_tail s = 0" "UART0_D s = []"
  shows "\<exists>s'. serial_putchar b e c s = Some s' \<and> enabled s' \<and> tx_ok s'
           \<and> unat (tx_buffer_total_size s') = 264
           \<and> tx_buffer_tail s' = 0 \<and> UART0_D s' = []
           \<and> unat (tx_buffer_head s') = (unat (tx_buffer_head s) + 1) mod 256
           \<and> UART0_C2 s' = C2_TX_ACTIVE b"
proof -
  let ?T = "tx_buffer_total_size s"
  let ?nh = "advance ?T (ucast (tx_buffer_head s))"
  have h: "unat (tx_buffer_head s) < unat ?T" using assms(2) by (simp add: tx_ok_def)
  have h256: "unat (tx_buffer_head s) < 256" by (rule unat_8_lt)
  have nh: "unat ?nh = unat (tx_buffer_head s) + 1"
    using advance_ucast_unat [OF h] assms(3) h256 by simp
  have room: "?nh \<noteq> ucast (tx_buffer_tail s)"
    using nh assms(4) by (simp add: word_eq_iff_unsigned [where ?'a = nat] unat_ucast_8_32)
  obtain buf' st' po c3 where
    put: "serial_putchar b e c s =
             Some (s\<lparr>pin_out := po, UART0_C3 := c3, tx_buffer := buf', tx_buffer_storage := st',
                     transmitting := 1, tx_buffer_head := ucast ?nh,
                     UART0_C2 := C2_TX_ACTIVE b\<rparr>)"
    and l: "length buf' = 64" and cv: "storage_covers ?T st'"
    using putchar_room [OF assms(1,2) room, of b e c] by blast
  let ?s' = "s\<lparr>pin_out := po, UART0_C3 := c3, tx_buffer := buf', tx_buffer_storage := st',
                     transmitting := 1, tx_buffer_head := ucast ?nh,
                     UART0_C2 := C2_TX_ACTIVE b\<rparr>"
  have hs: "unat (tx_buffer_head ?s') = (unat (tx_buffer_head s) + 1) mod 256"
    using nh by (simp add: unat_ucast_32_8_mod)
  have "unat (tx_buffer_head ?s') < unat ?T"
    using unat_8_lt [of "tx_buffer_head ?s'"] assms(3) by simp
  then have ok: "tx_ok ?s'" using assms(2,4) l cv by (simp add: tx_ok_def)
  have "enabled ?s'" "unat (tx_buffer_total_size ?s') = 264" "tx_buffer_tail ?s' = 0"
    "UART0_D ?s' = []" "UART0_C2 ?s' = C2_TX_ACTIVE b"
    using assms by (simp_all add: enabled_def)
  then show ?thesis using put ok hs by blast
qed

lemma wide_puts:
  assumes "enabled s" "tx_ok s" "unat (tx_buffer_total_size s) = 264"
      and "tx_buffer_tail s = 0" "UART0_D s = []"
  shows "\<exists>s'. enqueue_all b e (replicate n c) s = Some s' \<and> enabled s' \<and> tx_ok s'
           \<and> unat (tx_buffer_total_size s') = 264
           \<and> tx_buffer_tail s' = 0 \<and> UART0_D s' = []
           \<and> unat (tx_buffer_head s') = (unat (tx_buffer_head s) + n) mod 256
           \<and> (0 < n \<longrightarrow> UART0_C2 s' = C2_TX_ACTIVE b)"
  using assms
proof (induction n arbitrary: s)
  case 0
  then show ?case using unat_8_lt [of "tx_buffer_head s"] by simp
next
  case (Suc n)
  obtain s1 where p: "serial_putchar b e c s = Some s1" and a: "enabled s1" "tx_ok s1"
    "unat (tx_buffer_total_size s1) = 264" "tx_buffer_tail s1 = 0" "UART0_D s1 = []"
    and h1: "unat (tx_buffer_head s1) = (unat (tx_buffer_head s) + 1) mod 256"
    and c1: "UART0_C2 s1 = C2_TX_ACTIVE b"
    using wide_put [OF Suc.prems, of b e c] by blast
  obtain s' where r: "enqueue_all b e (replicate n c) s1 = Some s'" and a': "enabled s'" "tx_ok s'"
    "unat (tx_buffer_total_size s') = 264" "tx_buffer_tail s' = 0" "UART0_D s' = []"
    and h': "unat (tx_buffer_head s') = (unat (tx_buffer_head s1) + n) mod 256"
    and c': "0 < n \<longrightarrow> UART0_C2 s' = C2_TX_ACTIVE b"
    using Suc.IH [OF a] by blast
  have "enqueue_all b e (replicate (Suc n) c) s = Some s'" using p r by simp
  moreover have "unat (tx_buffer_head s') = (unat (tx_buffer_head s) + Suc n) mod 256"
    unfolding h' h1 by (simp add: mod_add_left_eq)
  moreover have "UART0_C2 s' = C2_TX_ACTIVE b"
  proof (cases n)
    case 0
    then have "s' = s1" using r by simp
    then show ?thesis using c1 by simp
  next
    case (Suc m)
    then show ?thesis using c' by simp
  qed
  ultimately show ?case using a' by blast
qed

lemma wide_tx_facts:
  "enabled wide_tx" "tx_ok wide_tx" "unat (tx_buffer_total_size wide_tx) = 264"
  "tx_buffer_tail wide_tx = 0" "UART0_D wide_tx = []" "tx_buffer_head wide_tx = 0"
  by (simp_all add: wide_tx_def serial_add_memory_for_write_def serial_begin_def startup_def
      enabled_def tx_ok_def storage_covers_def constant_defs)

text \<open>
  Claim C1 says that the law holds with or without an extension.  The head and tail of
  the rings are \<open>uint8_t\<close>, chosen by \<open>#if SERIAL1_TX_BUFFER_SIZE > 255\<close> for the static array
  alone, while \<open>serial_add_memory_for_write\<close> accepts any length.  With an extension of
  200 slots (total size 264) and 256 units enqueued while no interrupt is served, at most
  263 units are pending, yet the 256th call stores the head 256 cut to 8 bits, which is
  0, the value of the tail: the ring reads as empty, and the handler that runs next
  writes nothing to the data register and switches to \<open>C2_TX_COMPLETING\<close>.
\<close>

theorem extension_beyond_index_type:
  "tx_buffer_total_size wide_tx = 264
   \<and> map_option (\<lambda>s. (tx_buffer_head s, tx_buffer_tail s, UART0_D s))
        (enqueue_all kinetisl thread_mode (replicate 256 65) wide_tx) = Some (0, 0, [])
   \<and> map_option (\<lambda>s. (UART0_D s, UART0_C2 s))
        (case enqueue_all kinetisl thread_mode (replicate 256 65) wide_tx of
           None \<Rightarrow> None | Some s \<Rightarrow> uart0_status_isr kinetisl tx_event s)
      = Some ([], C2_TX_COMPLETING kinetisl)"
proof -
  obtain s where r: "enqueue_all kinetisl thread_mode (replicate 256 65) wide_tx = Some s"
    and t: "tx_buffer_tail s = 0" and d: "UART0_D s = []"
    and h: "unat (tx_buffer_head s) = (unat (tx_buffer_head wide_tx) + 256) mod 256"
    and c: "UART0_C2 s = C2_TX_ACTIVE kinetisl"
    using wide_puts [OF wide_tx_facts(1-5), of kinetisl thread_mode 256 65] by auto
  have "unat (tx_buffer_head s) = 0" using h by (simp add: wide_tx_facts)
  then have h0: "tx_buffer_head s = 0" by (simp add: unat_eq_0)
  have nf: "\<not> HAS_KINETISK_UART0_FIFO kinetisl" by (simp add: kinetisl_def)
  have rx: "uart0_status_isr_rx kinetisl tx_event s = Some s"
    by (rule isr_rx_single_idle [OF nf]) (simp add: tx_event_def)
  have tx: "uart0_status_isr_tx kinetisl tx_event (UART0_C2 s) s =
              Some (s\<lparr>UART0_C2 := C2_TX_COMPLETING kinetisl\<rparr>)"
    by (rule isr_tx_single_empty [OF nf])
      (simp_all add: c c2_active_bits tx_event_def UART_S1_TDRE_def h0 t)
  have "uart0_status_isr kinetisl tx_event s = Some (s\<lparr>UART0_C2 := C2_TX_COMPLETING kinetisl\<rparr>)"
    using rx tx by (simp add: uart0_status_isr_def Let_def isr_tc_idle c c2_active_bits)
  then show ?thesis using r t d h0
    by (simp add: wide_tx_def serial_add_memory_for_write_def constant_defs)
qed

end
